theory Spec2Isabelle
  imports Main "HOL-Library.Word" "HOL-Library.Monad_Syntax" "HOL-Library.Signed_Division"
begin

unbundle bit_operations_syntax

section \<open>The game data of nc\_2048.h\<close>

text \<open>
  Every \<^verbatim>\<open>int\<close> of the program is a 32-bit two's complement value. Arithmetic on tiles
  and on the score wraps around (C leaves the overflow of \<^verbatim>\<open>int\<close> undefined; the model
  takes the behaviour of the machine); the signed reading \<open>sint\<close> is used wherever the
  program compares or divides.
\<close>

type_synonym cint = "32 word"

text \<open>\<^verbatim>\<open>int tiles[DIM][DIM]\<close>: a list of rows, each a list of cells.\<close>

type_synonym board = "cint list list"

abbreviation DIM :: int where
  "DIM \<equiv> 4"

abbreviation UNDO_CAPACITY :: int where
  "UNDO_CAPACITY \<equiv> 4"

text \<open>\<^verbatim>\<open>struct stack\<close>: the circular undo stack.\<close>

record stack =
  undo_tiles :: "board list"
  undo_score :: "cint list"
  undo_top :: cint
  undo_size :: cint

text \<open>\<^verbatim>\<open>struct game\<close>, of which the program holds one global instance \<^verbatim>\<open>g\<close>.\<close>

record game =
  g_x :: cint
  g_y :: cint
  g_tiles :: board
  g_score :: cint
  g_undo :: stack

text \<open>
  The C arrays have a fixed shape; the lists of the model have it when they are well
  formed.
\<close>

definition wf_board :: "board \<Rightarrow> bool" where
  "wf_board t \<longleftrightarrow> length t = 4 \<and> (\<forall>r \<in> set t. length r = 4)"

definition wf_stack :: "stack \<Rightarrow> bool" where
  "wf_stack s \<longleftrightarrow>
     length (undo_tiles s) = 4 \<and> (\<forall>t \<in> set (undo_tiles s). wf_board t) \<and>
     length (undo_score s) = 4"

definition wf_game :: "game \<Rightarrow> bool" where
  "wf_game g \<longleftrightarrow> wf_board (g_tiles g) \<and> wf_stack (g_undo g)"

text \<open>
  Reading and writing \<^verbatim>\<open>tiles[i][j]\<close>. An index outside the array is undefined behaviour
  in C; the model returns \<open>None\<close> there, so that a result \<open>Some\<close> says that every access
  of the run was inside the array.
\<close>

definition rd :: "board \<Rightarrow> int \<Rightarrow> int \<Rightarrow> cint option" where
  "rd t i j =
     (if 0 \<le> i \<and> i < DIM \<and> 0 \<le> j \<and> j < DIM then Some (t ! nat i ! nat j) else None)"

definition wr :: "board \<Rightarrow> int \<Rightarrow> int \<Rightarrow> cint \<Rightarrow> board option" where
  "wr t i j v =
     (if 0 \<le> i \<and> i < DIM \<and> 0 \<le> j \<and> j < DIM
      then Some (t[nat i := (t ! nat i)[nat j := v]]) else None)"

section \<open>The push engine of logic.c\<close>

text \<open>
  The state of a push while it runs: the game, the flag \<^verbatim>\<open>new_tile_needed\<close>, and the
  locals \<^verbatim>\<open>zeros\<close> and \<^verbatim>\<open>unmerged\<close> of the line being scanned.
\<close>

type_synonym scan = "game \<times> bool \<times> int \<times> cint"

subsection \<open>left()\<close>

text \<open>The body of the inner loop of \<^verbatim>\<open>left\<close>, at row \<open>i\<close> and column \<open>j\<close>.\<close>

definition left_cell :: "int \<Rightarrow> int \<Rightarrow> scan \<Rightarrow> scan option" where
  "left_cell i j s =
     (case s of (g, ntn, zeros, unmerged) \<Rightarrow>
        do {
          c \<leftarrow> rd (g_tiles g) i j;
          if c = 0 then Some (g, ntn, zeros + 1, unmerged)
          else if c = unmerged then
            do {
              t \<leftarrow> wr (g_tiles g) i (j - zeros - 1) (unmerged * 2);
              Some (g\<lparr>g_tiles := t, g_score := g_score g + unmerged * 2\<rparr>, True, zeros + 1, 0)
            }
          else if unmerged \<noteq> 0 then
            do {
              t \<leftarrow> wr (g_tiles g) i (j - zeros - 1) unmerged;
              c' \<leftarrow> rd t i j;
              Some (g\<lparr>g_tiles := t\<rparr>, (if zeros \<noteq> 0 then True else ntn), zeros, c')
            }
          else Some (g, ntn, zeros, c)
        })"

text \<open>\<^verbatim>\<open>for (int j = 0; j < DIM; j++)\<close>, entered at \<open>j\<close>.\<close>

function left_scan :: "int \<Rightarrow> int \<Rightarrow> scan \<Rightarrow> scan option" where
  "left_scan i j s =
     (if j < DIM
      then (case left_cell i j s of None \<Rightarrow> None | Some s' \<Rightarrow> left_scan i (j + 1) s')
      else Some s)"
  by pat_completeness auto
termination
  by (relation "measure (\<lambda>(i, j, s). nat (DIM - j))") auto

text \<open>After the scan: the tile still unmerged goes back into the row.\<close>

definition left_flush :: "int \<Rightarrow> scan \<Rightarrow> scan option" where
  "left_flush i s =
     (case s of (g, ntn, zeros, unmerged) \<Rightarrow>
        if unmerged \<noteq> 0 then
          do {
            c \<leftarrow> rd (g_tiles g) i (DIM - zeros - 1);
            if c \<noteq> unmerged then
              do {
                t \<leftarrow> wr (g_tiles g) i (DIM - zeros - 1) unmerged;
                Some (g\<lparr>g_tiles := t\<rparr>, True, zeros, unmerged)
              }
            else Some (g, ntn, zeros, unmerged)
          }
        else Some (g, ntn, zeros, unmerged))"

text \<open>\<^verbatim>\<open>while (zeros) { g.tiles[i][DIM-zeros] = 0; zeros--; }\<close>\<close>

function left_fill :: "int \<Rightarrow> game \<Rightarrow> int \<Rightarrow> game option" where
  "left_fill i g zeros =
     (if zeros \<noteq> 0
      then (case wr (g_tiles g) i (DIM - zeros) 0 of
              None \<Rightarrow> None
            | Some t \<Rightarrow> left_fill i (g\<lparr>g_tiles := t\<rparr>) (zeros - 1))
      else Some g)"
  by pat_completeness auto
termination
  by (relation "measure (\<lambda>(i, g, zeros). nat zeros)") (auto simp: wr_def split: if_splits)

text \<open>The body of the outer loop: one row.\<close>

definition left_row :: "int \<Rightarrow> game \<times> bool \<Rightarrow> (game \<times> bool) option" where
  "left_row i gn =
     (case gn of (g, ntn) \<Rightarrow>
        do {
          s \<leftarrow> left_scan i 0 (g, ntn, 0, 0);
          (g', ntn', zeros, unmerged) \<leftarrow> left_flush i s;
          g'' \<leftarrow> left_fill i g' zeros;
          Some (g'', ntn')
        })"

text \<open>\<^verbatim>\<open>for (int i = 0; i < DIM; i++)\<close>, entered at \<open>i\<close>.\<close>

function left_rows :: "int \<Rightarrow> game \<times> bool \<Rightarrow> (game \<times> bool) option" where
  "left_rows i gn =
     (if i < DIM
      then (case left_row i gn of None \<Rightarrow> None | Some gn' \<Rightarrow> left_rows (i + 1) gn')
      else Some gn)"
  by pat_completeness auto
termination
  by (relation "measure (\<lambda>(i, gn). nat (DIM - i))") auto

text \<open>\<^verbatim>\<open>bool left(void)\<close>: the returned flag and the game afterwards.\<close>

definition left :: "game \<Rightarrow> (bool \<times> game) option" where
  "left g = do { (g', ntn) \<leftarrow> left_rows 0 (g, False); Some (ntn, g') }"

subsection \<open>right()\<close>

text \<open>As \<^verbatim>\<open>left\<close>, the row being scanned from its last column to its first.\<close>

definition right_cell :: "int \<Rightarrow> int \<Rightarrow> scan \<Rightarrow> scan option" where
  "right_cell i j s =
     (case s of (g, ntn, zeros, unmerged) \<Rightarrow>
        do {
          c \<leftarrow> rd (g_tiles g) i j;
          if c = 0 then Some (g, ntn, zeros + 1, unmerged)
          else if c = unmerged then
            do {
              t \<leftarrow> wr (g_tiles g) i (j + zeros + 1) (unmerged * 2);
              Some (g\<lparr>g_tiles := t, g_score := g_score g + unmerged * 2\<rparr>, True, zeros + 1, 0)
            }
          else if unmerged \<noteq> 0 then
            do {
              t \<leftarrow> wr (g_tiles g) i (j + zeros + 1) unmerged;
              c' \<leftarrow> rd t i j;
              Some (g\<lparr>g_tiles := t\<rparr>, (if zeros \<noteq> 0 then True else ntn), zeros, c')
            }
          else Some (g, ntn, zeros, c)
        })"

text \<open>\<^verbatim>\<open>for (int j = DIM - 1; j >= 0; j--)\<close>, entered at \<open>j\<close>.\<close>

function right_scan :: "int \<Rightarrow> int \<Rightarrow> scan \<Rightarrow> scan option" where
  "right_scan i j s =
     (if j \<ge> 0
      then (case right_cell i j s of None \<Rightarrow> None | Some s' \<Rightarrow> right_scan i (j - 1) s')
      else Some s)"
  by pat_completeness auto
termination
  by (relation "measure (\<lambda>(i, j, s). nat (j + 1))") auto

definition right_flush :: "int \<Rightarrow> scan \<Rightarrow> scan option" where
  "right_flush i s =
     (case s of (g, ntn, zeros, unmerged) \<Rightarrow>
        if unmerged \<noteq> 0 then
          do {
            c \<leftarrow> rd (g_tiles g) i zeros;
            if c \<noteq> unmerged then
              do {
                t \<leftarrow> wr (g_tiles g) i zeros unmerged;
                Some (g\<lparr>g_tiles := t\<rparr>, True, zeros, unmerged)
              }
            else Some (g, ntn, zeros, unmerged)
          }
        else Some (g, ntn, zeros, unmerged))"

text \<open>\<^verbatim>\<open>while (zeros) { g.tiles[i][zeros-1] = 0; zeros--; }\<close>\<close>

function right_fill :: "int \<Rightarrow> game \<Rightarrow> int \<Rightarrow> game option" where
  "right_fill i g zeros =
     (if zeros \<noteq> 0
      then (case wr (g_tiles g) i (zeros - 1) 0 of
              None \<Rightarrow> None
            | Some t \<Rightarrow> right_fill i (g\<lparr>g_tiles := t\<rparr>) (zeros - 1))
      else Some g)"
  by pat_completeness auto
termination
  by (relation "measure (\<lambda>(i, g, zeros). nat zeros)") (auto simp: wr_def split: if_splits)

definition right_row :: "int \<Rightarrow> game \<times> bool \<Rightarrow> (game \<times> bool) option" where
  "right_row i gn =
     (case gn of (g, ntn) \<Rightarrow>
        do {
          s \<leftarrow> right_scan i (DIM - 1) (g, ntn, 0, 0);
          (g', ntn', zeros, unmerged) \<leftarrow> right_flush i s;
          g'' \<leftarrow> right_fill i g' zeros;
          Some (g'', ntn')
        })"

function right_rows :: "int \<Rightarrow> game \<times> bool \<Rightarrow> (game \<times> bool) option" where
  "right_rows i gn =
     (if i < DIM
      then (case right_row i gn of None \<Rightarrow> None | Some gn' \<Rightarrow> right_rows (i + 1) gn')
      else Some gn)"
  by pat_completeness auto
termination
  by (relation "measure (\<lambda>(i, gn). nat (DIM - i))") auto

definition right :: "game \<Rightarrow> (bool \<times> game) option" where
  "right g = do { (g', ntn) \<leftarrow> right_rows 0 (g, False); Some (ntn, g') }"

subsection \<open>up()\<close>

text \<open>As \<^verbatim>\<open>left\<close>, the outer loop over the columns \<open>j\<close> and the inner one over the rows \<open>i\<close>.\<close>

definition up_cell :: "int \<Rightarrow> int \<Rightarrow> scan \<Rightarrow> scan option" where
  "up_cell j i s =
     (case s of (g, ntn, zeros, unmerged) \<Rightarrow>
        do {
          c \<leftarrow> rd (g_tiles g) i j;
          if c = 0 then Some (g, ntn, zeros + 1, unmerged)
          else if c = unmerged then
            do {
              t \<leftarrow> wr (g_tiles g) (i - zeros - 1) j (unmerged * 2);
              Some (g\<lparr>g_tiles := t, g_score := g_score g + unmerged * 2\<rparr>, True, zeros + 1, 0)
            }
          else if unmerged \<noteq> 0 then
            do {
              t \<leftarrow> wr (g_tiles g) (i - zeros - 1) j unmerged;
              c' \<leftarrow> rd t i j;
              Some (g\<lparr>g_tiles := t\<rparr>, (if zeros \<noteq> 0 then True else ntn), zeros, c')
            }
          else Some (g, ntn, zeros, c)
        })"

function up_scan :: "int \<Rightarrow> int \<Rightarrow> scan \<Rightarrow> scan option" where
  "up_scan j i s =
     (if i < DIM
      then (case up_cell j i s of None \<Rightarrow> None | Some s' \<Rightarrow> up_scan j (i + 1) s')
      else Some s)"
  by pat_completeness auto
termination
  by (relation "measure (\<lambda>(j, i, s). nat (DIM - i))") auto

definition up_flush :: "int \<Rightarrow> scan \<Rightarrow> scan option" where
  "up_flush j s =
     (case s of (g, ntn, zeros, unmerged) \<Rightarrow>
        if unmerged \<noteq> 0 then
          do {
            c \<leftarrow> rd (g_tiles g) (DIM - zeros - 1) j;
            if c \<noteq> unmerged then
              do {
                t \<leftarrow> wr (g_tiles g) (DIM - zeros - 1) j unmerged;
                Some (g\<lparr>g_tiles := t\<rparr>, True, zeros, unmerged)
              }
            else Some (g, ntn, zeros, unmerged)
          }
        else Some (g, ntn, zeros, unmerged))"

text \<open>\<^verbatim>\<open>while (zeros) { g.tiles[DIM-zeros][j] = 0; zeros--; }\<close>\<close>

function up_fill :: "int \<Rightarrow> game \<Rightarrow> int \<Rightarrow> game option" where
  "up_fill j g zeros =
     (if zeros \<noteq> 0
      then (case wr (g_tiles g) (DIM - zeros) j 0 of
              None \<Rightarrow> None
            | Some t \<Rightarrow> up_fill j (g\<lparr>g_tiles := t\<rparr>) (zeros - 1))
      else Some g)"
  by pat_completeness auto
termination
  by (relation "measure (\<lambda>(j, g, zeros). nat zeros)") (auto simp: wr_def split: if_splits)

definition up_col :: "int \<Rightarrow> game \<times> bool \<Rightarrow> (game \<times> bool) option" where
  "up_col j gn =
     (case gn of (g, ntn) \<Rightarrow>
        do {
          s \<leftarrow> up_scan j 0 (g, ntn, 0, 0);
          (g', ntn', zeros, unmerged) \<leftarrow> up_flush j s;
          g'' \<leftarrow> up_fill j g' zeros;
          Some (g'', ntn')
        })"

function up_cols :: "int \<Rightarrow> game \<times> bool \<Rightarrow> (game \<times> bool) option" where
  "up_cols j gn =
     (if j < DIM
      then (case up_col j gn of None \<Rightarrow> None | Some gn' \<Rightarrow> up_cols (j + 1) gn')
      else Some gn)"
  by pat_completeness auto
termination
  by (relation "measure (\<lambda>(j, gn). nat (DIM - j))") auto

definition up :: "game \<Rightarrow> (bool \<times> game) option" where
  "up g = do { (g', ntn) \<leftarrow> up_cols 0 (g, False); Some (ntn, g') }"

subsection \<open>down()\<close>

text \<open>As \<^verbatim>\<open>up\<close>, each column being scanned from its last row to its first.\<close>

definition down_cell :: "int \<Rightarrow> int \<Rightarrow> scan \<Rightarrow> scan option" where
  "down_cell j i s =
     (case s of (g, ntn, zeros, unmerged) \<Rightarrow>
        do {
          c \<leftarrow> rd (g_tiles g) i j;
          if c = 0 then Some (g, ntn, zeros + 1, unmerged)
          else if c = unmerged then
            do {
              t \<leftarrow> wr (g_tiles g) (i + zeros + 1) j (unmerged * 2);
              Some (g\<lparr>g_tiles := t, g_score := g_score g + unmerged * 2\<rparr>, True, zeros + 1, 0)
            }
          else if unmerged \<noteq> 0 then
            do {
              t \<leftarrow> wr (g_tiles g) (i + zeros + 1) j unmerged;
              c' \<leftarrow> rd t i j;
              Some (g\<lparr>g_tiles := t\<rparr>, (if zeros \<noteq> 0 then True else ntn), zeros, c')
            }
          else Some (g, ntn, zeros, c)
        })"

function down_scan :: "int \<Rightarrow> int \<Rightarrow> scan \<Rightarrow> scan option" where
  "down_scan j i s =
     (if i \<ge> 0
      then (case down_cell j i s of None \<Rightarrow> None | Some s' \<Rightarrow> down_scan j (i - 1) s')
      else Some s)"
  by pat_completeness auto
termination
  by (relation "measure (\<lambda>(j, i, s). nat (i + 1))") auto

definition down_flush :: "int \<Rightarrow> scan \<Rightarrow> scan option" where
  "down_flush j s =
     (case s of (g, ntn, zeros, unmerged) \<Rightarrow>
        if unmerged \<noteq> 0 then
          do {
            c \<leftarrow> rd (g_tiles g) zeros j;
            if c \<noteq> unmerged then
              do {
                t \<leftarrow> wr (g_tiles g) zeros j unmerged;
                Some (g\<lparr>g_tiles := t\<rparr>, True, zeros, unmerged)
              }
            else Some (g, ntn, zeros, unmerged)
          }
        else Some (g, ntn, zeros, unmerged))"

text \<open>\<^verbatim>\<open>while (zeros) { g.tiles[zeros-1][j] = 0; zeros--; }\<close>\<close>

function down_fill :: "int \<Rightarrow> game \<Rightarrow> int \<Rightarrow> game option" where
  "down_fill j g zeros =
     (if zeros \<noteq> 0
      then (case wr (g_tiles g) (zeros - 1) j 0 of
              None \<Rightarrow> None
            | Some t \<Rightarrow> down_fill j (g\<lparr>g_tiles := t\<rparr>) (zeros - 1))
      else Some g)"
  by pat_completeness auto
termination
  by (relation "measure (\<lambda>(j, g, zeros). nat zeros)") (auto simp: wr_def split: if_splits)

definition down_col :: "int \<Rightarrow> game \<times> bool \<Rightarrow> (game \<times> bool) option" where
  "down_col j gn =
     (case gn of (g, ntn) \<Rightarrow>
        do {
          s \<leftarrow> down_scan j (DIM - 1) (g, ntn, 0, 0);
          (g', ntn', zeros, unmerged) \<leftarrow> down_flush j s;
          g'' \<leftarrow> down_fill j g' zeros;
          Some (g'', ntn')
        })"

function down_cols :: "int \<Rightarrow> game \<times> bool \<Rightarrow> (game \<times> bool) option" where
  "down_cols j gn =
     (if j < DIM
      then (case down_col j gn of None \<Rightarrow> None | Some gn' \<Rightarrow> down_cols (j + 1) gn')
      else Some gn)"
  by pat_completeness auto
termination
  by (relation "measure (\<lambda>(j, gn). nat (DIM - j))") auto

definition down :: "game \<Rightarrow> (bool \<times> game) option" where
  "down g = do { (g', ntn) \<leftarrow> down_cols 0 (g, False); Some (ntn, g') }"

section \<open>The spawner: new\_tile()\<close>

text \<open>
  The first pair of loops counts the empty cells:
  \<^verbatim>\<open>if (g.tiles[i][j] == 0) zeros_count++;\<close>
\<close>

function count_scan :: "board \<Rightarrow> int \<Rightarrow> int \<Rightarrow> int \<Rightarrow> int option" where
  "count_scan t i j zeros_count =
     (if j < DIM
      then (case rd t i j of
              None \<Rightarrow> None
            | Some c \<Rightarrow> count_scan t i (j + 1) (if c = 0 then zeros_count + 1 else zeros_count))
      else Some zeros_count)"
  by pat_completeness auto
termination
  by (relation "measure (\<lambda>(t, i, j, z). nat (DIM - j))") auto

function count_rows :: "board \<Rightarrow> int \<Rightarrow> int \<Rightarrow> int option" where
  "count_rows t i zeros_count =
     (if i < DIM
      then (case count_scan t i 0 zeros_count of
              None \<Rightarrow> None
            | Some z \<Rightarrow> count_rows t (i + 1) z)
      else Some zeros_count)"
  by pat_completeness auto
termination
  by (relation "measure (\<lambda>(t, i, z). nat (DIM - i))") auto

text \<open>
  The second pair of loops places the tile and returns from inside the loops. A scan
  yields \<open>Inl g'\<close> when the function returned with the game \<open>g'\<close>, and \<open>Inr zeros_count\<close>
  when the loop ran to its end.
\<close>

function place_scan :: "game \<Rightarrow> int \<Rightarrow> cint \<Rightarrow> int \<Rightarrow> int \<Rightarrow> int \<Rightarrow> (game + int) option" where
  "place_scan g new_placement v i j zeros_count =
     (if j < DIM
      then (case rd (g_tiles g) i j of
              None \<Rightarrow> None
            | Some c \<Rightarrow>
                if c = 0 then
                  (if zeros_count = new_placement
                   then (case wr (g_tiles g) i j v of
                           None \<Rightarrow> None
                         | Some t \<Rightarrow> Some (Inl (g\<lparr>g_tiles := t\<rparr>)))
                   else place_scan g new_placement v i (j + 1) (zeros_count + 1))
                else place_scan g new_placement v i (j + 1) zeros_count)
      else Some (Inr zeros_count))"
  by pat_completeness auto
termination
  by (relation "measure (\<lambda>(g, p, v, i, j, z). nat (DIM - j))") auto

function place_rows :: "game \<Rightarrow> int \<Rightarrow> cint \<Rightarrow> int \<Rightarrow> int \<Rightarrow> (game + int) option" where
  "place_rows g new_placement v i zeros_count =
     (if i < DIM
      then (case place_scan g new_placement v i 0 zeros_count of
              None \<Rightarrow> None
            | Some (Inl g') \<Rightarrow> Some (Inl g')
            | Some (Inr z) \<Rightarrow> place_rows g new_placement v (i + 1) z)
      else Some (Inr zeros_count))"
  by pat_completeness auto
termination
  by (relation "measure (\<lambda>(g, p, v, i, z). nat (DIM - i))") auto

text \<open>
  \<^verbatim>\<open>drand48()\<close> returns \<open>d / 2^48\<close> for a 48-bit number \<open>d\<close>; the two draws of a call are
  the parameters \<open>d1\<close> and \<open>d2\<close>. The product \<^verbatim>\<open>drand48() * zeros_count\<close> is exact in
  double precision (at most 53 significant bits), so that the cast to \<^verbatim>\<open>int\<close> is the
  integer quotient below. The double nearest to \<^verbatim>\<open>0.9\<close> is \<open>8106479329266893 / 2^53\<close>.
\<close>

definition new_tile :: "bool \<Rightarrow> nat \<Rightarrow> nat \<Rightarrow> game \<Rightarrow> game option" where
  "new_tile random_tiles d1 d2 g =
     do {
       zeros_count \<leftarrow> count_rows (g_tiles g) 0 0;
       let new_placement = (if random_tiles then (int d1 * zeros_count) div 2 ^ 48 else 0);
       let v = (if random_tiles then (if d2 * 2 ^ 5 < 8106479329266893 then 2 else 4) else 2);
       r \<leftarrow> place_rows g new_placement v 0 0;
       Some (case r of Inl g' \<Rightarrow> g' | Inr z \<Rightarrow> g)
     }"

section \<open>The availability checker: move\_available()\<close>

text \<open>
  The three tests made at one cell; \<open>True\<close> when one of them returns \<^verbatim>\<open>true\<close>. The
  conjunctions of the source are short-circuit: the neighbour is read only inside the
  board.
\<close>

definition avail_cell :: "board \<Rightarrow> int \<Rightarrow> int \<Rightarrow> bool option" where
  "avail_cell t i j =
     do {
       c \<leftarrow> rd t i j;
       if c = 0 then Some True
       else do {
         below \<leftarrow> (if i < DIM - 1 then do { c' \<leftarrow> rd t (i + 1) j; Some (c = c') } else Some False);
         if below then Some True
         else do {
           beside \<leftarrow> (if j < DIM - 1 then do { c' \<leftarrow> rd t i (j + 1); Some (c = c') } else Some False);
           Some beside
         }
       }
     }"

function avail_scan :: "board \<Rightarrow> int \<Rightarrow> int \<Rightarrow> bool option" where
  "avail_scan t i j =
     (if j < DIM
      then (case avail_cell t i j of
              None \<Rightarrow> None
            | Some True \<Rightarrow> Some True
            | Some False \<Rightarrow> avail_scan t i (j + 1))
      else Some False)"
  by pat_completeness auto
termination
  by (relation "measure (\<lambda>(t, i, j). nat (DIM - j))") auto

function avail_rows :: "board \<Rightarrow> int \<Rightarrow> bool option" where
  "avail_rows t i =
     (if i < DIM
      then (case avail_scan t i 0 of
              None \<Rightarrow> None
            | Some True \<Rightarrow> Some True
            | Some False \<Rightarrow> avail_rows t (i + 1))
      else Some False)"
  by pat_completeness auto
termination
  by (relation "measure (\<lambda>(t, i). nat (DIM - i))") auto

text \<open>The function has no assignment to \<^verbatim>\<open>g\<close>: the game comes back as it went in.\<close>

definition move_available :: "game \<Rightarrow> (bool \<times> game) option" where
  "move_available g = do { b \<leftarrow> avail_rows (g_tiles g) 0; Some (b, g) }"

section \<open>The undo stack: push\_undo() and pop\_undo()\<close>

text \<open>The operator \<^verbatim>\<open>%\<close> of C on \<^verbatim>\<open>int\<close>: the remainder of the division that truncates.\<close>

definition c_rem :: "cint \<Rightarrow> cint \<Rightarrow> cint" where
  "c_rem a b = word_of_int (sint a smod sint b)"

text \<open>An index into one of the arrays of \<^verbatim>\<open>struct stack\<close>.\<close>

definition slot :: "cint \<Rightarrow> nat option" where
  "slot k = (if 0 \<le> sint k \<and> sint k < UNDO_CAPACITY then Some (nat (sint k)) else None)"

definition push_undo :: "game \<Rightarrow> game option" where
  "push_undo g =
     (let u = g_undo g;
          u1 = u\<lparr>undo_top := c_rem (undo_top u + 1) 4\<rparr>;
          u2 = (if sint (undo_size u1) < UNDO_CAPACITY
                then u1\<lparr>undo_size := undo_size u1 + 1\<rparr> else u1)
      in do {
        k \<leftarrow> slot (undo_top u2);
        Some (g\<lparr>g_undo := u2\<lparr>undo_tiles := (undo_tiles u2)[k := g_tiles g],
                              undo_score := (undo_score u2)[k := g_score g]\<rparr>\<rparr>)
      })"

definition pop_undo :: "game \<Rightarrow> (bool \<times> game) option" where
  "pop_undo g =
     (let u = g_undo g in
      if sint (undo_size u) \<le> 1 then Some (False, g)
      else do {
        k \<leftarrow> slot (if undo_top u \<noteq> 0 then undo_top u - 1 else 4 - 1);
        Some (True,
              g\<lparr>g_tiles := undo_tiles u ! k,
                g_score := undo_score u ! k,
                g_undo := u\<lparr>undo_top := c_rem (undo_top u + 4 - 1) 4,
                            undo_size := undo_size u - 1\<rparr>\<rparr>)
      })"

section \<open>Persistence: save\_game() and load\_game()\<close>

text \<open>
  \<^verbatim>\<open>fwrite(&g, sizeof g, 1, fp)\<close> writes the object representation of the whole
  \<^verbatim>\<open>struct game\<close>: its 89 \<^verbatim>\<open>int\<close>s in the order of declaration (\<^verbatim>\<open>x\<close>, \<^verbatim>\<open>y\<close>,
  \<^verbatim>\<open>tiles\<close>, \<^verbatim>\<open>score\<close>, and of \<^verbatim>\<open>undo\<close>: \<^verbatim>\<open>tiles\<close>, \<^verbatim>\<open>score\<close>, \<^verbatim>\<open>top\<close>,
  \<^verbatim>\<open>size\<close>), four bytes each and the least significant byte first, with no padding.
\<close>

type_synonym byte = "8 word"

definition int_bytes :: "cint \<Rightarrow> byte list" where
  "int_bytes w = [ucast w, ucast (drop_bit 8 w), ucast (drop_bit 16 w), ucast (drop_bit 24 w)]"

definition bytes_int :: "byte list \<Rightarrow> cint" where
  "bytes_int bs =
     ucast (bs ! 0) OR push_bit 8 (ucast (bs ! 1)) OR push_bit 16 (ucast (bs ! 2))
       OR push_bit 24 (ucast (bs ! 3))"

definition game_ints :: "game \<Rightarrow> cint list" where
  "game_ints g =
     [g_x g, g_y g] @ concat (g_tiles g) @ [g_score g] @
     concat (map concat (undo_tiles (g_undo g))) @ undo_score (g_undo g) @
     [undo_top (g_undo g), undo_size (g_undo g)]"

definition game_bytes :: "game \<Rightarrow> byte list" where
  "game_bytes g = concat (map int_bytes (game_ints g))"

text \<open>\<^verbatim>\<open>sizeof g\<close>\<close>

definition sizeof_game :: nat where
  "sizeof_game = 356"

text \<open>The first \<open>k\<close> groups of \<open>n\<close> elements of a list.\<close>

primrec groups :: "nat \<Rightarrow> nat \<Rightarrow> 'a list \<Rightarrow> 'a list list" where
  "groups 0 n xs = []"
| "groups (Suc k) n xs = take n xs # groups k n (drop n xs)"

definition ints_game :: "cint list \<Rightarrow> game" where
  "ints_game ws =
     \<lparr>g_x = ws ! 0, g_y = ws ! 1,
      g_tiles = groups 4 4 (take 16 (drop 2 ws)),
      g_score = ws ! 18,
      g_undo = \<lparr>undo_tiles = map (groups 4 4) (groups 4 16 (take 64 (drop 19 ws))),
                undo_score = take 4 (drop 83 ws),
                undo_top = ws ! 87, undo_size = ws ! 88\<rparr>\<rparr>"

definition bytes_game :: "byte list \<Rightarrow> game" where
  "bytes_game bs = ints_game (map bytes_int (groups 89 4 bs))"

text \<open>
  The save file \<^verbatim>\<open>SAVEFILE\<close>: its bytes, or \<open>None\<close> when there is no such file. What
  the C library does in one call is a parameter: whether \<^verbatim>\<open>fopen\<close> succeeds, and how
  many bytes reach the file, or come from it, before an error stops the transfer.
\<close>

type_synonym savefile = "byte list option"

record io =
  io_open :: bool
  io_bytes :: nat

text \<open>
  On the stream written, \<^verbatim>\<open>fwrite\<close> of a record smaller than the buffer only fills the
  buffer and reports the record as written; the bytes reach the file when \<^verbatim>\<open>fclose\<close>
  flushes, and \<^verbatim>\<open>save_game\<close> drops the result of \<^verbatim>\<open>fclose\<close>. So with a buffer (the usual
  case) \<^verbatim>\<open>save_game\<close> returns \<^verbatim>\<open>true\<close> whatever reaches the file; without one,
  \<^verbatim>\<open>fwrite\<close> writes at once and a short write is reported.
\<close>

record wio = io +
  io_buffered :: bool

definition save_game :: "wio \<Rightarrow> game \<Rightarrow> savefile \<Rightarrow> bool \<times> savefile" where
  "save_game io g f =
     (if \<not> io_open io then (False, f)
      else
        (let written = take (min (io_bytes io) sizeof_game) (game_bytes g) in
         if \<not> io_buffered io \<and> io_bytes io < sizeof_game then (False, Some written)
         else (True, Some written)))"

definition load_game :: "io \<Rightarrow> savefile \<Rightarrow> game \<Rightarrow> bool \<times> game" where
  "load_game io f g =
     (case f of
        None \<Rightarrow> (False, g)
      | Some bs \<Rightarrow>
          if \<not> io_open io then (False, g)
          else
            (let temp = take (min (io_bytes io) sizeof_game) bs in
             if length temp < sizeof_game then (False, g)
             else (True, bytes_game temp)))"

section \<open>Notions used to state the properties\<close>

text \<open>A game whose arrays are filled with the rows given, for use in examples.\<close>

definition empty_stack :: stack where
  "empty_stack =
     \<lparr>undo_tiles = replicate 4 (replicate 4 (replicate 4 0)), undo_score = replicate 4 0,
      undo_top = 0, undo_size = 0\<rparr>"

definition game_of :: "board \<Rightarrow> cint \<Rightarrow> game" where
  "game_of t sc = \<lparr>g_x = 0, g_y = 0, g_tiles = t, g_score = sc, g_undo = empty_stack\<rparr>"

text \<open>
  The push of one line as a function on lists, after section 4.1 of the specification:
  the non-zero tiles in scan order, neighbours that are equal merged once from the near
  edge on, the sum of the merged tiles as the gain, and the line filled up with zeros.
  The theorems below show that the four pushes of logic.c compute it.
\<close>

fun merge_line :: "cint list \<Rightarrow> cint list \<times> cint" where
  "merge_line (a # b # xs) =
     (if a = b then (case merge_line xs of (ys, s) \<Rightarrow> ((a * 2) # ys, a * 2 + s))
      else (case merge_line (b # xs) of (ys, s) \<Rightarrow> (a # ys, s)))"
| "merge_line xs = (xs, 0)"

definition push_line :: "cint list \<Rightarrow> cint list \<times> cint" where
  "push_line r =
     (case merge_line (filter (\<lambda>x. x \<noteq> 0) r) of
        (ys, s) \<Rightarrow> (ys @ replicate (length r - length ys) 0, s))"

text \<open>The board transposed, and the board with every row reversed.\<close>

definition transpose_board :: "board \<Rightarrow> board" where
  "transpose_board t = map (\<lambda>j. map (\<lambda>i. t ! i ! j) [0, 1, 2, 3]) [0, 1, 2, 3]"

definition mirror_board :: "board \<Rightarrow> board" where
  "mirror_board t = map rev t"

text \<open>A change of the board lifted to the game, to the result of a push and to a loop state.\<close>

definition on_tiles :: "(board \<Rightarrow> board) \<Rightarrow> game \<Rightarrow> game" where
  "on_tiles f g = g\<lparr>g_tiles := f (g_tiles g)\<rparr>"

definition result_on :: "(board \<Rightarrow> board) \<Rightarrow> bool \<times> game \<Rightarrow> bool \<times> game" where
  "result_on f r = (case r of (c, g) \<Rightarrow> (c, on_tiles f g))"

definition first_on :: "(board \<Rightarrow> board) \<Rightarrow> game \<times> 'a \<Rightarrow> game \<times> 'a" where
  "first_on f s = (case s of (g, rest) \<Rightarrow> (on_tiles f g, rest))"

definition wf_first :: "game \<times> 'a \<Rightarrow> bool" where
  "wf_first s \<longleftrightarrow> wf_board (g_tiles (fst s))"

text \<open>
  \<open>sim P Q M N f f'\<close>: on the states in \<open>P\<close>, running \<open>f'\<close> on the image under \<open>M\<close> is
  running \<open>f\<close> and taking the image under \<open>N\<close>; and \<open>f\<close> leads from \<open>P\<close> into \<open>Q\<close>.
\<close>

definition sim :: "('a \<Rightarrow> bool) \<Rightarrow> ('b \<Rightarrow> bool) \<Rightarrow> ('a \<Rightarrow> 'c) \<Rightarrow> ('b \<Rightarrow> 'd) \<Rightarrow>
    ('a \<Rightarrow> 'b option) \<Rightarrow> ('c \<Rightarrow> 'd option) \<Rightarrow> bool" where
  "sim P Q M N f f' \<longleftrightarrow>
     (\<forall>s. P s \<longrightarrow> f' (M s) = map_option N (f s) \<and> (\<forall>s'. f s = Some s' \<longrightarrow> Q s'))"

text \<open>The push of every row of a board, and the gain of all its rows.\<close>

definition push_rows :: "board \<Rightarrow> board" where
  "push_rows t = map (\<lambda>r. fst (push_line r)) t"

definition gain_rows :: "board \<Rightarrow> cint" where
  "gain_rows t = sum_list (map (\<lambda>r. snd (push_line r)) t)"


text \<open>
  \<open>pushes_lines push F G g\<close>: the push turns the board by \<open>F\<close>, pushes every row to the
  left and turns the board back by \<open>G\<close>; it returns whether a row changed.
\<close>

definition pushes_lines :: "(game \<Rightarrow> (bool \<times> game) option) \<Rightarrow> (board \<Rightarrow> board) \<Rightarrow> (board \<Rightarrow> board) \<Rightarrow> game \<Rightarrow> bool" where
  "pushes_lines push F G g \<longleftrightarrow>
     push g = Some (push_rows (F (g_tiles g)) \<noteq> F (g_tiles g),
                    g\<lparr>g_tiles := G (push_rows (F (g_tiles g))),
                      g_score := g_score g + gain_rows (F (g_tiles g))\<rparr>)"

text \<open>
  The returned flag is exact: the push returns, the flag is set exactly when the board
  afterwards differs from the board before, and without the flag the score is as before.
\<close>

definition flag_exact :: "(game \<Rightarrow> (bool \<times> game) option) \<Rightarrow> game \<Rightarrow> bool" where
  "flag_exact push g \<longleftrightarrow>
     (\<exists>c g'. push g = Some (c, g') \<and> (c \<longleftrightarrow> g_tiles g' \<noteq> g_tiles g) \<and>
        (\<not> c \<longrightarrow> g_score g' = g_score g))"



text \<open>
  The invariant of the undo stack: \<^verbatim>\<open>top\<close> is an index of the arrays and \<^verbatim>\<open>size\<close> is at
  most the capacity. \<^verbatim>\<open>new_game\<close> sets both to 0.
\<close>

definition stack_ok :: "stack \<Rightarrow> bool" where
  "stack_ok u \<longleftrightarrow>
     0 \<le> sint (undo_top u) \<and> sint (undo_top u) < UNDO_CAPACITY \<and>
     0 \<le> sint (undo_size u) \<and> sint (undo_size u) \<le> UNDO_CAPACITY"

text \<open>
  What the stack holds: its \<^verbatim>\<open>size\<close> snapshots (board and score), the newest first; it
  sits at index \<^verbatim>\<open>top\<close>, the one pushed before it at the index before, cyclically.
\<close>

definition snapshots :: "board list \<Rightarrow> cint list \<Rightarrow> nat \<Rightarrow> nat \<Rightarrow> (board \<times> cint) list" where
  "snapshots ts ss k n = map (\<lambda>d. (ts ! ((k + 4 - d) mod 4), ss ! ((k + 4 - d) mod 4))) [0..<n]"

definition history :: "stack \<Rightarrow> (board \<times> cint) list" where
  "history u =
     snapshots (undo_tiles u) (undo_score u) (nat (sint (undo_top u))) (nat (sint (undo_size u)))"

text \<open>
  A sequence of pushes as the game loop makes them: the live board and score take new
  values, then \<^verbatim>\<open>push_undo\<close> is called.
\<close>

fun push_all :: "(board \<times> cint) list \<Rightarrow> game \<Rightarrow> game option" where
  "push_all [] g = Some g"
| "push_all ((t, sc) # rest) g =
     (case push_undo (g\<lparr>g_tiles := t, g_score := sc\<rparr>) of
        None \<Rightarrow> None
      | Some g' \<Rightarrow> push_all rest g')"

text \<open>A game given by its live state and the contents of its undo stack, for examples.\<close>

definition game_with :: "board \<Rightarrow> cint \<Rightarrow> board list \<Rightarrow> cint list \<Rightarrow> cint \<Rightarrow> cint \<Rightarrow> game" where
  "game_with t sc ts ss k n =
     \<lparr>g_x = 0, g_y = 0, g_tiles = t, g_score = sc,
      g_undo = \<lparr>undo_tiles = ts, undo_score = ss, undo_top = k, undo_size = n\<rparr>\<rparr>"

abbreviation (input) row_of :: "cint \<Rightarrow> cint list" where
  "row_of v \<equiv> [v, v, v, v]"

text \<open>
  A board with an empty cell, and a board on which two cells next to each other, in a
  column or in a row, hold the same non-zero value.
\<close>

definition has_empty :: "board \<Rightarrow> bool" where
  "has_empty t \<longleftrightarrow> list_ex (\<lambda>i. list_ex (\<lambda>j. t ! i ! j = 0) [0, 1, 2, 3]) [0, 1, 2, 3]"

definition has_equal_pair :: "board \<Rightarrow> bool" where
  "has_equal_pair t \<longleftrightarrow>
     list_ex (\<lambda>i. list_ex (\<lambda>j. t ! i ! j \<noteq> 0 \<and> t ! i ! j = t ! (i + 1) ! j) [0, 1, 2, 3]) [0, 1, 2] \<or>
     list_ex (\<lambda>i. list_ex (\<lambda>j. t ! i ! j \<noteq> 0 \<and> t ! i ! j = t ! i ! (j + 1)) [0, 1, 2]) [0, 1, 2, 3]"

text \<open>The number of empty cells of a line, and the number of tiles on a board.\<close>

definition zeros_in :: "cint list \<Rightarrow> nat" where
  "zeros_in r = length (filter (\<lambda>c. c = 0) r)"

definition nonempty_count :: "board \<Rightarrow> nat" where
  "nonempty_count t = length (filter (\<lambda>c. c \<noteq> 0) (concat t))"

text \<open>
  The line, and the board, with the value \<open>v\<close> written over the empty cell that has \<open>k\<close>
  empty cells before it in scan order (rows from the first, each from its first column).
\<close>

fun place_line :: "cint list \<Rightarrow> nat \<Rightarrow> cint \<Rightarrow> cint list" where
  "place_line [] k v = []"
| "place_line (c # cs) k v =
     (if c = 0 then (if k = 0 then v # cs else c # place_line cs (k - 1) v)
      else c # place_line cs k v)"

fun place_board :: "board \<Rightarrow> nat \<Rightarrow> cint \<Rightarrow> board" where
  "place_board [] k v = []"
| "place_board (r # rs) k v =
     (if k < zeros_in r then place_line r k v # rs else r # place_board rs (k - zeros_in r) v)"

section \<open>The four pushes\<close>

declare left_scan.simps [simp del] left_fill.simps [simp del] left_rows.simps [simp del]
  right_scan.simps [simp del] right_fill.simps [simp del] right_rows.simps [simp del]
  up_scan.simps [simp del] up_fill.simps [simp del] up_cols.simps [simp del]
  down_scan.simps [simp del] down_fill.simps [simp del] down_cols.simps [simp del]
  avail_scan.simps [simp del] avail_rows.simps [simp del]
  count_scan.simps [simp del] count_rows.simps [simp del]
  place_scan.simps [simp del] place_rows.simps [simp del]

subsection \<open>Boards\<close>

lemma length4: "length r = 4 \<longleftrightarrow> (\<exists>a b c d. r = [a, b, c, d])"
  by (auto simp: eval_nat_numeral length_Suc_conv)

lemma wf_board_explicit:
  "wf_board t \<longleftrightarrow> (\<exists>a0 a1 a2 a3 b0 b1 b2 b3 c0 c1 c2 c3 d0 d1 d2 d3.
      t = [[a0,a1,a2,a3],[b0,b1,b2,b3],[c0,c1,c2,c3],[d0,d1,d2,d3]])"
  unfolding wf_board_def
proof
  assume "length t = 4 \<and> (\<forall>r\<in>set t. length r = 4)"
  then obtain r0 r1 r2 r3 where t: "t = [r0, r1, r2, r3]"
    and "length r0 = 4" "length r1 = 4" "length r2 = 4" "length r3 = 4"
    by (auto simp: length4)
  then show "\<exists>a0 a1 a2 a3 b0 b1 b2 b3 c0 c1 c2 c3 d0 d1 d2 d3.
      t = [[a0,a1,a2,a3],[b0,b1,b2,b3],[c0,c1,c2,c3],[d0,d1,d2,d3]]"
    unfolding length4 by blast
next
  assume "\<exists>a0 a1 a2 a3 b0 b1 b2 b3 c0 c1 c2 c3 d0 d1 d2 d3.
      t = [[a0,a1,a2,a3],[b0,b1,b2,b3],[c0,c1,c2,c3],[d0,d1,d2,d3]]"
  then show "length t = 4 \<and> (\<forall>r\<in>set t. length r = 4)" by auto
qed

lemma index4: "0 \<le> i \<Longrightarrow> i < 4 \<Longrightarrow> i = 0 \<or> i = 1 \<or> i = 2 \<or> i = (3::int)"
  by linarith

lemma wf_wr: "wf_board t \<Longrightarrow> wr t i j v = Some t' \<Longrightarrow> wf_board t'"
  by (auto simp: wr_def wf_board_def split: if_splits dest!: set_update_subset_insert[THEN subsetD])

lemma wf_transpose_board: "wf_board (transpose_board t)"
  by (auto simp: wf_board_def transpose_board_def)

lemma wf_mirror_board: "wf_board t \<Longrightarrow> wf_board (mirror_board t)"
  by (auto simp: wf_board_def mirror_board_def)

lemma transpose_board_twice: "wf_board t \<Longrightarrow> transpose_board (transpose_board t) = t"
  by (auto simp: wf_board_explicit transpose_board_def)

lemma mirror_board_twice: "mirror_board (mirror_board t) = t"
  by (simp add: mirror_board_def map_idI)

lemma rd_transpose_board: "rd (transpose_board t) i j = rd t j i"
proof (cases "0 \<le> i \<and> i < 4 \<and> 0 \<le> j \<and> j < 4")
  case True
  then have "i = 0 \<or> i = 1 \<or> i = 2 \<or> i = 3" "j = 0 \<or> j = 1 \<or> j = 2 \<or> j = 3"
    by (auto intro: index4)
  then show ?thesis
    by (auto simp: rd_def transpose_board_def)
next
  case False
  then show ?thesis by (auto simp: rd_def)
qed

lemma rd_mirror_board:
  assumes "wf_board t"
  shows "rd (mirror_board t) i j = rd t i (3 - j)"
proof (cases "0 \<le> i \<and> i < 4 \<and> 0 \<le> j \<and> j < 4")
  case True
  then have "i = 0 \<or> i = 1 \<or> i = 2 \<or> i = 3" "j = 0 \<or> j = 1 \<or> j = 2 \<or> j = 3"
    by (auto intro: index4)
  with assms show ?thesis
    by (auto simp: rd_def mirror_board_def wf_board_explicit)
next
  case False
  then show ?thesis by (auto simp: rd_def)
qed

lemma wr_transpose_board:
  assumes "wf_board t"
  shows "wr (transpose_board t) i j v = map_option transpose_board (wr t j i v)"
proof (cases "0 \<le> i \<and> i < 4 \<and> 0 \<le> j \<and> j < 4")
  case True
  then have "i = 0 \<or> i = 1 \<or> i = 2 \<or> i = 3" "j = 0 \<or> j = 1 \<or> j = 2 \<or> j = 3"
    by (auto intro: index4)
  with assms show ?thesis
    by (auto simp: wr_def transpose_board_def wf_board_explicit)
next
  case False
  then show ?thesis by (auto simp: wr_def)
qed

lemma wr_mirror_board:
  assumes "wf_board t"
  shows "wr (mirror_board t) i j v = map_option mirror_board (wr t i (3 - j) v)"
proof (cases "0 \<le> i \<and> i < 4 \<and> 0 \<le> j \<and> j < 4")
  case True
  then have "i = 0 \<or> i = 1 \<or> i = 2 \<or> i = 3" "j = 0 \<or> j = 1 \<or> j = 2 \<or> j = 3"
    by (auto intro: index4)
  with assms show ?thesis
    by (auto simp: wr_def mirror_board_def wf_board_explicit)
next
  case False
  then show ?thesis by (auto simp: wr_def)
qed

subsection \<open>Simulation of one push by another\<close>

lemma sim_bind:
  assumes "sim P Q M N f f'" "sim Q R N N2 k k'"
  shows "sim P R M N2 (\<lambda>s. f s \<bind> k) (\<lambda>s. f' s \<bind> k')"
  using assms unfolding sim_def
  by (auto simp: bind_eq_Some_conv split: Option.bind_split)

lemma line_sim:
  fixes scan scan' flush flush' :: "scan \<Rightarrow> scan option"
  assumes scan: "sim wf_first wf_first (first_on F) (first_on F) scan scan'"
    and flush: "sim wf_first wf_first (first_on F) (first_on F) flush flush'"
    and fill: "\<And>g z. wf_board (g_tiles g) \<Longrightarrow>
        fill' (on_tiles F g) z = map_option (on_tiles F) (fill g z) \<and>
        (\<forall>g'. fill g z = Some g' \<longrightarrow> wf_board (g_tiles g'))"
  shows "sim wf_first wf_first (first_on F) (first_on F)
      (\<lambda>gn. case gn of (g, ntn) \<Rightarrow>
         do { s \<leftarrow> scan (g, ntn, 0, 0); (g', ntn', zeros, unmerged) \<leftarrow> flush s;
              g'' \<leftarrow> fill g' zeros; Some (g'', ntn') })
      (\<lambda>gn. case gn of (g, ntn) \<Rightarrow>
         do { s \<leftarrow> scan' (g, ntn, 0, 0); (g', ntn', zeros, unmerged) \<leftarrow> flush' s;
              g'' \<leftarrow> fill' g' zeros; Some (g'', ntn') })"
  unfolding sim_def
proof (intro allI impI)
  fix s :: "game \<times> bool"
  assume wf: "wf_first s"
  obtain g ntn where s: "s = (g, ntn)" by (cases s)
  let ?row = "\<lambda>gn. case gn of (g, ntn) \<Rightarrow>
         do { s \<leftarrow> scan (g, ntn, 0, 0); (g', ntn', zeros, unmerged) \<leftarrow> flush s;
              g'' \<leftarrow> fill g' zeros; Some (g'', ntn') }"
  let ?row' = "\<lambda>gn. case gn of (g, ntn) \<Rightarrow>
         do { s \<leftarrow> scan' (g, ntn, 0, 0); (g', ntn', zeros, unmerged) \<leftarrow> flush' s;
              g'' \<leftarrow> fill' g' zeros; Some (g'', ntn') }"
  have init: "wf_first (g, ntn, 0::int, 0::cint)" using wf s by (simp add: wf_first_def)
  have i0: "first_on F (g, ntn, 0::int, 0::cint) = (on_tiles F g, ntn, 0, 0)"
    by (simp add: first_on_def)
  note A = scan[unfolded sim_def, rule_format, OF init, unfolded i0]
  show "?row' (first_on F s) = map_option (first_on F) (?row s) \<and>
        (\<forall>s'. ?row s = Some s' \<longrightarrow> wf_first s')"
  proof (cases "scan (g, ntn, 0, 0)")
    case None
    with A show ?thesis by (simp add: s first_on_def)
  next
    case (Some s1)
    with A have wf1: "wf_first s1"
      and l1: "scan' (on_tiles F g, ntn, 0, 0) = Some (first_on F s1)"
      by auto
    note B = flush[unfolded sim_def, rule_format, OF wf1]
    show ?thesis
    proof (cases "flush s1")
      case None
      with B Some l1 show ?thesis by (simp add: s first_on_def)
    next
      case s2: (Some s2)
      obtain g2 n2 z2 u2 where s2': "s2 = (g2, n2, z2, u2)" by (cases s2)
      with B s2 have wf2: "wf_board (g_tiles g2)"
        and l2: "flush' (first_on F s1) = Some (on_tiles F g2, n2, z2, u2)"
        by (auto simp: first_on_def wf_first_def)
      note C = fill[OF wf2, of z2]
      from C l1 l2 Some s2 s2' show ?thesis
        by (cases "fill g2 z2") (auto simp add: s first_on_def wf_first_def)
    qed
  qed
qed

lemma top_sim:
  assumes "sim wf_first wf_first (first_on F) (first_on F) rows rows'"
    and "wf_board (g_tiles g)"
  shows "do { (g', ntn) \<leftarrow> rows' (on_tiles F g, False); Some (ntn, g') } =
         map_option (result_on F) (do { (g', ntn) \<leftarrow> rows (g, False); Some (ntn, g') })"
    and "do { (g', ntn) \<leftarrow> rows (g, False); Some (ntn, g') } = Some (c, g1) \<Longrightarrow> wf_board (g_tiles g1)"
  using assms(1)[unfolded sim_def, rule_format, of "(g, False)"] assms(2)
  by (auto simp: first_on_def result_on_def wf_first_def bind_eq_Some_conv
      split: Option.bind_split prod.splits)

lemma left_scan_unroll:
  "left_scan k 0 =
     (\<lambda>s. left_cell k 0 s \<bind> (\<lambda>s. left_cell k 1 s \<bind> (\<lambda>s. left_cell k 2 s \<bind> left_cell k 3)))"
  by (rule ext) (simp add: left_scan.simps split: option.splits)

lemma right_scan_unroll:
  "right_scan k 3 =
     (\<lambda>s. right_cell k 3 s \<bind> (\<lambda>s. right_cell k 2 s \<bind> (\<lambda>s. right_cell k 1 s \<bind> right_cell k 0)))"
  by (rule ext) (simp add: right_scan.simps split: option.splits)

lemma up_scan_unroll:
  "up_scan k 0 =
     (\<lambda>s. up_cell k 0 s \<bind> (\<lambda>s. up_cell k 1 s \<bind> (\<lambda>s. up_cell k 2 s \<bind> up_cell k 3)))"
  by (rule ext) (simp add: up_scan.simps split: option.splits)

lemma down_scan_unroll:
  "down_scan k 3 =
     (\<lambda>s. down_cell k 3 s \<bind> (\<lambda>s. down_cell k 2 s \<bind> (\<lambda>s. down_cell k 1 s \<bind> down_cell k 0)))"
  by (rule ext) (simp add: down_scan.simps split: option.splits)

lemma left_rows_unroll:
  "left_rows 0 = (\<lambda>s. left_row 0 s \<bind> (\<lambda>s. left_row 1 s \<bind> (\<lambda>s. left_row 2 s \<bind> left_row 3)))"
  by (rule ext) (simp add: left_rows.simps split: option.splits)

lemma right_rows_unroll:
  "right_rows 0 = (\<lambda>s. right_row 0 s \<bind> (\<lambda>s. right_row 1 s \<bind> (\<lambda>s. right_row 2 s \<bind> right_row 3)))"
  by (rule ext) (simp add: right_rows.simps split: option.splits)

lemma up_cols_unroll:
  "up_cols 0 = (\<lambda>s. up_col 0 s \<bind> (\<lambda>s. up_col 1 s \<bind> (\<lambda>s. up_col 2 s \<bind> up_col 3)))"
  by (rule ext) (simp add: up_cols.simps split: option.splits)

lemma down_cols_unroll:
  "down_cols 0 = (\<lambda>s. down_col 0 s \<bind> (\<lambda>s. down_col 1 s \<bind> (\<lambda>s. down_col 2 s \<bind> down_col 3)))"
  by (rule ext) (simp add: down_cols.simps split: option.splits)

subsection \<open>up() is left() on the transposed board\<close>

lemma up_cell_sim:
  "sim wf_first wf_first (first_on transpose_board) (first_on transpose_board) (up_cell k l) (left_cell k l)"
  unfolding sim_def
  by (auto simp: up_cell_def left_cell_def first_on_def on_tiles_def wf_first_def
      rd_transpose_board wr_transpose_board bind_eq_Some_conv wf_wr
      split: Option.bind_split if_splits)

lemma up_flush_sim:
  "sim wf_first wf_first (first_on transpose_board) (first_on transpose_board) (up_flush k) (left_flush k)"
  unfolding sim_def
  by (auto simp: up_flush_def left_flush_def first_on_def on_tiles_def wf_first_def
      rd_transpose_board wr_transpose_board bind_eq_Some_conv wf_wr
      split: Option.bind_split if_splits)

lemma up_fill_sim:
  "wf_board (g_tiles g) \<Longrightarrow>
     left_fill k (on_tiles transpose_board g) z = map_option (on_tiles transpose_board) (up_fill k g z) \<and>
     (\<forall>g'. up_fill k g z = Some g' \<longrightarrow> wf_board (g_tiles g'))"
proof (induction k g z rule: up_fill.induct)
  case (1 k g zeros)
  show ?case
  proof (cases "zeros = 0")
    case True
    with "1.prems" show ?thesis by (simp add: up_fill.simps left_fill.simps)
  next
    case False
    show ?thesis
    proof (cases "wr (g_tiles g) (DIM - zeros) k 0")
      case None
      with False "1.prems" show ?thesis
        by (simp add: on_tiles_def wr_transpose_board up_fill.simps[of k g zeros]
            left_fill.simps[of k _ zeros])
    next
      case (Some t)
      with "1.prems" have wf: "wf_board t" by (auto intro: wf_wr)
      from "1.IH"[OF False Some] wf
      have "left_fill k (on_tiles transpose_board (g\<lparr>g_tiles := t\<rparr>)) (zeros - 1) =
            map_option (on_tiles transpose_board) (up_fill k (g\<lparr>g_tiles := t\<rparr>) (zeros - 1)) \<and>
            (\<forall>g'. up_fill k (g\<lparr>g_tiles := t\<rparr>) (zeros - 1) = Some g' \<longrightarrow>
               wf_board (g_tiles g'))"
        by simp
      with False Some "1.prems" show ?thesis
        by (simp add: on_tiles_def[abs_def] wr_transpose_board up_fill.simps[of k g zeros]
            left_fill.simps[of k _ zeros])
    qed
  qed
qed

lemma up_scan_sim:
  "sim wf_first wf_first (first_on transpose_board) (first_on transpose_board)
     (up_scan k 0) (left_scan k 0)"
  unfolding up_scan_unroll left_scan_unroll
  by (rule sim_bind[OF up_cell_sim])+ (rule up_cell_sim)

lemma up_col_sim:
  "sim wf_first wf_first (first_on transpose_board) (first_on transpose_board)
     (up_col k) (left_row k)"
  unfolding up_col_def[abs_def] left_row_def[abs_def]
  by (rule line_sim[where fill = "up_fill k" and fill' = "left_fill k", OF up_scan_sim up_flush_sim up_fill_sim])

lemma up_cols_sim:
  "sim wf_first wf_first (first_on transpose_board) (first_on transpose_board)
     (up_cols 0) (left_rows 0)"
  unfolding up_cols_unroll left_rows_unroll
  by (rule sim_bind[OF up_col_sim])+ (rule up_col_sim)

lemma up_sim:
  assumes "wf_board (g_tiles g)"
  shows "left (on_tiles transpose_board g) = map_option (result_on transpose_board) (up g)"
    and "up g = Some (c, g1) \<Longrightarrow> wf_board (g_tiles g1)"
  unfolding left_def up_def
  by (rule top_sim[OF up_cols_sim assms], erule top_sim(2)[OF up_cols_sim assms])

subsection \<open>down() is right() on the transposed board\<close>

lemma down_cell_sim:
  "sim wf_first wf_first (first_on transpose_board) (first_on transpose_board) (down_cell k l) (right_cell k l)"
  unfolding sim_def
  by (auto simp: down_cell_def right_cell_def first_on_def on_tiles_def wf_first_def
      rd_transpose_board wr_transpose_board bind_eq_Some_conv wf_wr
      split: Option.bind_split if_splits)

lemma down_flush_sim:
  "sim wf_first wf_first (first_on transpose_board) (first_on transpose_board) (down_flush k) (right_flush k)"
  unfolding sim_def
  by (auto simp: down_flush_def right_flush_def first_on_def on_tiles_def wf_first_def
      rd_transpose_board wr_transpose_board bind_eq_Some_conv wf_wr
      split: Option.bind_split if_splits)

lemma down_fill_sim:
  "wf_board (g_tiles g) \<Longrightarrow>
     right_fill k (on_tiles transpose_board g) z = map_option (on_tiles transpose_board) (down_fill k g z) \<and>
     (\<forall>g'. down_fill k g z = Some g' \<longrightarrow> wf_board (g_tiles g'))"
proof (induction k g z rule: down_fill.induct)
  case (1 k g zeros)
  show ?case
  proof (cases "zeros = 0")
    case True
    with "1.prems" show ?thesis by (simp add: down_fill.simps right_fill.simps)
  next
    case False
    show ?thesis
    proof (cases "wr (g_tiles g) (zeros - 1) k 0")
      case None
      with False "1.prems" show ?thesis
        by (simp add: on_tiles_def wr_transpose_board down_fill.simps[of k g zeros]
            right_fill.simps[of k _ zeros])
    next
      case (Some t)
      with "1.prems" have wf: "wf_board t" by (auto intro: wf_wr)
      from "1.IH"[OF False Some] wf
      have "right_fill k (on_tiles transpose_board (g\<lparr>g_tiles := t\<rparr>)) (zeros - 1) =
            map_option (on_tiles transpose_board) (down_fill k (g\<lparr>g_tiles := t\<rparr>) (zeros - 1)) \<and>
            (\<forall>g'. down_fill k (g\<lparr>g_tiles := t\<rparr>) (zeros - 1) = Some g' \<longrightarrow>
               wf_board (g_tiles g'))"
        by simp
      with False Some "1.prems" show ?thesis
        by (simp add: on_tiles_def[abs_def] wr_transpose_board down_fill.simps[of k g zeros]
            right_fill.simps[of k _ zeros])
    qed
  qed
qed

lemma down_scan_sim:
  "sim wf_first wf_first (first_on transpose_board) (first_on transpose_board)
     (down_scan k (DIM - 1)) (right_scan k (DIM - 1))"
proof -
  have "sim wf_first wf_first (first_on transpose_board) (first_on transpose_board)
     (down_scan k 3) (right_scan k 3)"
    unfolding down_scan_unroll right_scan_unroll
    by (rule sim_bind[OF down_cell_sim])+ (rule down_cell_sim)
  then show ?thesis by simp
qed

lemma down_col_sim:
  "sim wf_first wf_first (first_on transpose_board) (first_on transpose_board)
     (down_col k) (right_row k)"
  unfolding down_col_def[abs_def] right_row_def[abs_def]
  by (rule line_sim[where fill = "down_fill k" and fill' = "right_fill k", OF down_scan_sim down_flush_sim down_fill_sim])

lemma down_cols_sim:
  "sim wf_first wf_first (first_on transpose_board) (first_on transpose_board)
     (down_cols 0) (right_rows 0)"
  unfolding down_cols_unroll right_rows_unroll
  by (rule sim_bind[OF down_col_sim])+ (rule down_col_sim)

lemma down_sim:
  assumes "wf_board (g_tiles g)"
  shows "right (on_tiles transpose_board g) = map_option (result_on transpose_board) (down g)"
    and "down g = Some (c, g1) \<Longrightarrow> wf_board (g_tiles g1)"
  unfolding right_def down_def
  by (rule top_sim[OF down_cols_sim assms], erule top_sim(2)[OF down_cols_sim assms])

subsection \<open>right() is left() on the mirrored board\<close>

lemma right_cell_sim:
  "sim wf_first wf_first (first_on mirror_board) (first_on mirror_board) (right_cell k l) (left_cell k (3 - l))"
  unfolding sim_def
  by (auto simp: right_cell_def left_cell_def first_on_def on_tiles_def wf_first_def
      rd_mirror_board wr_mirror_board bind_eq_Some_conv wf_wr algebra_simps
      split: Option.bind_split if_splits)

lemma right_flush_sim:
  "sim wf_first wf_first (first_on mirror_board) (first_on mirror_board) (right_flush k) (left_flush k)"
  unfolding sim_def
  by (auto simp: right_flush_def left_flush_def first_on_def on_tiles_def wf_first_def
      rd_mirror_board wr_mirror_board bind_eq_Some_conv wf_wr algebra_simps
      split: Option.bind_split if_splits)

lemma right_fill_sim:
  "wf_board (g_tiles g) \<Longrightarrow>
     left_fill k (on_tiles mirror_board g) z = map_option (on_tiles mirror_board) (right_fill k g z) \<and>
     (\<forall>g'. right_fill k g z = Some g' \<longrightarrow> wf_board (g_tiles g'))"
proof (induction k g z rule: right_fill.induct)
  case (1 k g zeros)
  show ?case
  proof (cases "zeros = 0")
    case True
    with "1.prems" show ?thesis by (simp add: right_fill.simps left_fill.simps)
  next
    case False
    show ?thesis
    proof (cases "wr (g_tiles g) k (zeros - 1) 0")
      case None
      with False "1.prems" show ?thesis
        by (simp add: on_tiles_def wr_mirror_board right_fill.simps[of k g zeros]
            left_fill.simps[of k _ zeros] algebra_simps)
    next
      case (Some t)
      with "1.prems" have wf: "wf_board t" by (auto intro: wf_wr)
      from "1.IH"[OF False Some] wf
      have "left_fill k (on_tiles mirror_board (g\<lparr>g_tiles := t\<rparr>)) (zeros - 1) =
            map_option (on_tiles mirror_board) (right_fill k (g\<lparr>g_tiles := t\<rparr>) (zeros - 1)) \<and>
            (\<forall>g'. right_fill k (g\<lparr>g_tiles := t\<rparr>) (zeros - 1) = Some g' \<longrightarrow>
               wf_board (g_tiles g'))"
        by simp
      with False Some "1.prems" show ?thesis
        by (simp add: on_tiles_def[abs_def] wr_mirror_board right_fill.simps[of k g zeros]
            left_fill.simps[of k _ zeros] algebra_simps)
    qed
  qed
qed

lemma right_scan_sim:
  "sim wf_first wf_first (first_on mirror_board) (first_on mirror_board)
     (right_scan k (DIM - 1)) (left_scan k 0)"
proof -
  have "sim wf_first wf_first (first_on mirror_board) (first_on mirror_board)
     (right_scan k 3) (left_scan k 0)"
    unfolding right_scan_unroll left_scan_unroll
    using right_cell_sim[of k 3] right_cell_sim[of k 2] right_cell_sim[of k 1] right_cell_sim[of k 0]
    by (auto intro!: sim_bind)
  then show ?thesis by simp
qed

lemma right_row_sim:
  "sim wf_first wf_first (first_on mirror_board) (first_on mirror_board)
     (right_row k) (left_row k)"
  unfolding right_row_def[abs_def] left_row_def[abs_def]
  by (rule line_sim[where fill = "right_fill k" and fill' = "left_fill k", OF right_scan_sim right_flush_sim right_fill_sim])

lemma right_rows_sim:
  "sim wf_first wf_first (first_on mirror_board) (first_on mirror_board)
     (right_rows 0) (left_rows 0)"
  unfolding right_rows_unroll left_rows_unroll
  by (rule sim_bind[OF right_row_sim])+ (rule right_row_sim)

lemma right_sim:
  assumes "wf_board (g_tiles g)"
  shows "left (on_tiles mirror_board g) = map_option (result_on mirror_board) (right g)"
    and "right g = Some (c, g1) \<Longrightarrow> wf_board (g_tiles g1)"
  unfolding left_def right_def
  by (rule top_sim[OF right_rows_sim assms], erule top_sim(2)[OF right_rows_sim assms])

subsection \<open>left() computes the push of every row\<close>

lemma merge_line_length: "length (fst (merge_line xs)) \<le> length xs"
  by (induction xs rule: merge_line.induct) (auto split: prod.splits)

lemma push_line_length [simp]: "length (fst (push_line r)) = length r"
proof -
  have "length (fst (merge_line (filter (\<lambda>x. x \<noteq> 0) r))) \<le> length r"
    by (rule order_trans[OF merge_line_length]) simp
  then show ?thesis
    by (cases "merge_line (filter (\<lambda>x. x \<noteq> 0) r)") (simp add: push_line_def)
qed

lemma left_row_explicit:
  assumes "length t = 4" "0 \<le> i" "i < 4" "t ! nat i = [a, b, c, d]" "g_tiles g = t"
  shows "left_row i (g, ntn) =
     Some (g\<lparr>g_tiles := t[nat i := fst (push_line [a, b, c, d])],
             g_score := g_score g + snd (push_line [a, b, c, d])\<rparr>,
           ntn \<or> fst (push_line [a, b, c, d]) \<noteq> [a, b, c, d])"
  using assms
  apply (cases "a = 0"; cases "b = 0"; cases "c = 0"; cases "d = 0")
  by (simp_all add: left_row_def left_scan_unroll left_cell_def left_flush_def left_fill.simps
      rd_def wr_def push_line_def)

lemma left_row_refines:
  assumes "wf_board (g_tiles g)" "0 \<le> i" "i < 4"
  shows "left_row i (g, ntn) =
     Some (g\<lparr>g_tiles := (g_tiles g)[nat i := fst (push_line (g_tiles g ! nat i))],
             g_score := g_score g + snd (push_line (g_tiles g ! nat i))\<rparr>,
           ntn \<or> fst (push_line (g_tiles g ! nat i)) \<noteq> g_tiles g ! nat i)"
proof -
  from assms have "length (g_tiles g ! nat i) = 4" "length (g_tiles g) = 4"
    by (auto simp: wf_board_def)
  then obtain a b c d where "g_tiles g ! nat i = [a, b, c, d]"
    by (auto simp: length4)
  with left_row_explicit[OF \<open>length (g_tiles g) = 4\<close> assms(2,3) this refl] show ?thesis
    by simp
qed

lemma wf_board_update:
  "wf_board t \<Longrightarrow> length r = 4 \<Longrightarrow> wf_board (t[i := r])"
  by (auto simp: wf_board_def dest!: set_update_subset_insert[THEN subsetD])

lemma left_spec:
  assumes "wf_board (g_tiles g)"
  shows "left g =
     Some (map (\<lambda>r. fst (push_line r)) (g_tiles g) \<noteq> g_tiles g,
           g\<lparr>g_tiles := map (\<lambda>r. fst (push_line r)) (g_tiles g),
             g_score := g_score g + sum_list (map (\<lambda>r. snd (push_line r)) (g_tiles g))\<rparr>)"
proof -
  from assms obtain r0 r1 r2 r3 where t: "g_tiles g = [r0, r1, r2, r3]"
    and len: "length r0 = 4" "length r1 = 4" "length r2 = 4" "length r3 = 4"
    by (auto simp: wf_board_def length4)
  define g1 where "g1 = g\<lparr>g_tiles := [fst (push_line r0), r1, r2, r3], g_score := g_score g + snd (push_line r0)\<rparr>"
  define g2 where "g2 = g1\<lparr>g_tiles := [fst (push_line r0), fst (push_line r1), r2, r3], g_score := g_score g1 + snd (push_line r1)\<rparr>"
  define g3 where "g3 = g2\<lparr>g_tiles := [fst (push_line r0), fst (push_line r1), fst (push_line r2), r3], g_score := g_score g2 + snd (push_line r2)\<rparr>"
  define g4 where "g4 = g3\<lparr>g_tiles := [fst (push_line r0), fst (push_line r1), fst (push_line r2), fst (push_line r3)], g_score := g_score g3 + snd (push_line r3)\<rparr>"
  have wf1: "wf_board (g_tiles g1)" and wf2: "wf_board (g_tiles g2)" and wf3: "wf_board (g_tiles g3)"
    using len by (simp_all add: g1_def g2_def g3_def wf_board_def)
  have s0: "left_row 0 (g, False) = Some (g1, fst (push_line r0) \<noteq> r0)"
    using left_row_refines[OF assms, of 0 False] by (simp add: t g1_def)
  have s1: "left_row 1 (g1, n) = Some (g2, n \<or> fst (push_line r1) \<noteq> r1)" for n
    using left_row_refines[OF wf1, of 1 n] by (simp add: g1_def g2_def)
  have s2: "left_row 2 (g2, n) = Some (g3, n \<or> fst (push_line r2) \<noteq> r2)" for n
    using left_row_refines[OF wf2, of 2 n] by (simp add: g2_def g3_def)
  have s3: "left_row 3 (g3, n) = Some (g4, n \<or> fst (push_line r3) \<noteq> r3)" for n
    using left_row_refines[OF wf3, of 3 n] by (simp add: g3_def g4_def)
  have "left g = Some ((((fst (push_line r0) \<noteq> r0) \<or> fst (push_line r1) \<noteq> r1) \<or> fst (push_line r2) \<noteq> r2) \<or> fst (push_line r3) \<noteq> r3, g4)"
    by (simp add: left_def left_rows_unroll s0 s1 s2 s3)
  also have "g4 = g\<lparr>g_tiles := map (\<lambda>r. fst (push_line r)) (g_tiles g),
             g_score := g_score g + sum_list (map (\<lambda>r. snd (push_line r)) (g_tiles g))\<rparr>"
    by (simp add: g4_def g3_def g2_def g1_def t add.assoc)
  finally show ?thesis
    by (auto simp: t)
qed

subsection \<open>All four pushes push lines\<close>

lemma wf_push_rows: "wf_board t \<Longrightarrow> wf_board (push_rows t)"
  by (auto simp: wf_board_def push_rows_def)

lemma result_on_twice:
  "F (F (g_tiles (snd r))) = g_tiles (snd r) \<Longrightarrow> result_on F (result_on F r) = r"
  by (cases r) (simp add: result_on_def on_tiles_def)

lemma right_conj:
  assumes "wf_board (g_tiles g)"
  shows "right g = map_option (result_on mirror_board) (left (on_tiles mirror_board g))"
  by (simp add: right_sim(1)[OF assms] option.map_comp comp_def result_on_twice mirror_board_twice
      option.map_ident)

lemma up_conj:
  assumes "wf_board (g_tiles g)"
  shows "up g = map_option (result_on transpose_board) (left (on_tiles transpose_board g))"
proof (cases "up g")
  case None
  then show ?thesis by (simp add: up_sim(1)[OF assms])
next
  case (Some r)
  obtain c g1 where r: "r = (c, g1)" by (cases r)
  with Some up_sim(2)[OF assms] have "wf_board (g_tiles g1)" by simp
  with Some r show ?thesis
    by (simp add: up_sim(1)[OF assms] result_on_twice transpose_board_twice)
qed

lemma down_conj:
  assumes "wf_board (g_tiles g)"
  shows "down g = map_option (result_on transpose_board) (right (on_tiles transpose_board g))"
proof (cases "down g")
  case None
  then show ?thesis by (simp add: down_sim(1)[OF assms])
next
  case (Some r)
  obtain c g1 where r: "r = (c, g1)" by (cases r)
  with Some down_sim(2)[OF assms] have "wf_board (g_tiles g1)" by simp
  with Some r show ?thesis
    by (simp add: down_sim(1)[OF assms] result_on_twice transpose_board_twice)
qed

lemma left_lines: "wf_board (g_tiles g) \<Longrightarrow> pushes_lines left (\<lambda>t. t) (\<lambda>t. t) g"
  by (simp add: pushes_lines_def left_spec push_rows_def gain_rows_def)

lemma right_lines: "wf_board (g_tiles g) \<Longrightarrow> pushes_lines right mirror_board mirror_board g"
  by (simp add: pushes_lines_def right_conj left_spec wf_mirror_board on_tiles_def result_on_def
      push_rows_def gain_rows_def)

lemma up_lines: "wf_board (g_tiles g) \<Longrightarrow> pushes_lines up transpose_board transpose_board g"
  by (simp add: pushes_lines_def up_conj left_spec wf_transpose_board on_tiles_def result_on_def
      push_rows_def gain_rows_def)

lemma down_lines:
  "wf_board (g_tiles g) \<Longrightarrow>
     pushes_lines down (\<lambda>t. mirror_board (transpose_board t)) (\<lambda>t. transpose_board (mirror_board t)) g"
  using right_lines[of "on_tiles transpose_board g"]
  by (simp add: pushes_lines_def down_conj wf_transpose_board on_tiles_def result_on_def)

lemma merge_line_gain: "snd (merge_line xs) \<noteq> 0 \<Longrightarrow> length (fst (merge_line xs)) < length xs"
proof (induction xs rule: merge_line.induct)
  case (1 a b xs)
  show ?case
  proof (cases "a = b")
    case True
    have "length (fst (merge_line xs)) \<le> length xs" by (rule merge_line_length)
    with True show ?thesis by (cases "merge_line xs") simp
  next
    case False
    with 1 show ?thesis by (auto split: prod.splits)
  qed
qed simp_all

lemma filter_pad: "filter (\<lambda>x. x \<noteq> (0::cint)) (ys @ replicate k 0) = filter (\<lambda>x. x \<noteq> 0) ys"
  by simp

lemma push_line_fixed_gain:
  assumes "fst (push_line r) = r"
  shows "snd (push_line r) = 0"
proof (rule ccontr)
  assume nz: "snd (push_line r) \<noteq> 0"
  obtain ys s where m: "merge_line (filter (\<lambda>x. x \<noteq> 0) r) = (ys, s)"
    by (cases "merge_line (filter (\<lambda>x. x \<noteq> 0) r)")
  with nz have "s \<noteq> 0" by (simp add: push_line_def)
  with merge_line_gain[of "filter (\<lambda>x. x \<noteq> 0) r"] m
  have lt: "length ys < length (filter (\<lambda>x. x \<noteq> 0) r)" by simp
  from assms m have "r = ys @ replicate (length r - length ys) 0"
    by (simp add: push_line_def)
  then have "filter (\<lambda>x. x \<noteq> 0) r = filter (\<lambda>x. x \<noteq> 0) (ys @ replicate (length r - length ys) 0)"
    by simp
  then have "filter (\<lambda>x. x \<noteq> 0) r = filter (\<lambda>x. x \<noteq> 0) ys"
    by (simp only: filter_pad)
  then have "length (filter (\<lambda>x. x \<noteq> 0) r) \<le> length ys"
    by simp
  with lt show False by simp
qed

lemma gain_rows_fixed:
  assumes "push_rows t = t"
  shows "gain_rows t = 0"
proof -
  from assms have "map (\<lambda>r. fst (push_line r)) t = map (\<lambda>r. r) t"
    by (simp add: push_rows_def)
  then have "\<forall>r\<in>set t. fst (push_line r) = r"
    by (simp only: map_eq_conv)
  then have "\<forall>r\<in>set t. snd (push_line r) = 0"
    by (auto intro: push_line_fixed_gain)
  then have "sum_list (map (\<lambda>r. snd (push_line r)) t) = 0"
    by (induction t) simp_all
  then show ?thesis
    by (simp add: gain_rows_def)
qed






lemma lines_flag_exact:
  assumes pl: "pushes_lines push F G g"
    and GF: "G (F (g_tiles g)) = g_tiles g"
    and FG: "\<And>t. wf_board t \<Longrightarrow> F (G t) = t"
    and wf: "wf_board (F (g_tiles g))"
  shows "flag_exact push g"
proof -
  let ?P = "push_rows (F (g_tiles g))"
  have wfP: "wf_board ?P" using wf by (rule wf_push_rows)
  have "?P \<noteq> F (g_tiles g) \<longleftrightarrow> G ?P \<noteq> g_tiles g"
  proof
    assume "?P \<noteq> F (g_tiles g)"
    show "G ?P \<noteq> g_tiles g"
    proof
      assume "G ?P = g_tiles g"
      then have "F (G ?P) = F (g_tiles g)" by simp
      with FG[OF wfP] \<open>?P \<noteq> F (g_tiles g)\<close> show False by simp
    qed
  next
    assume "G ?P \<noteq> g_tiles g"
    with GF show "?P \<noteq> F (g_tiles g)" by auto
  qed
  moreover have "?P = F (g_tiles g) \<Longrightarrow> gain_rows (F (g_tiles g)) = 0"
    by (rule gain_rows_fixed)
  ultimately show ?thesis
    using pl unfolding flag_exact_def pushes_lines_def by auto
qed


subsection \<open>Rows are pushed independently\<close>

lemma all_less4: "(\<forall>i<4. P i) \<longleftrightarrow> P 0 \<and> P 1 \<and> P 2 \<and> P (3::nat)"
proof -
  have "{..<4::nat} = {0, 1, 2, 3}" by auto
  then have "(\<forall>i<4. P i) \<longleftrightarrow> (\<forall>i\<in>{0, 1, 2, 3::nat}. P i)"
    by (metis lessThan_iff)
  then show ?thesis by simp
qed

text \<open>
  Claim C1. On every board \<^verbatim>\<open>left\<close> returns, and each row of the board afterwards is
  the push of the same row before, whatever the other rows hold; the score grows by the
  sum of the gains of the rows. In particular a row \<open>[0,2,0,2]\<close> becomes \<open>[4,0,0,0]\<close> and
  adds 4 to the score, \<open>[4,0,4,4]\<close> becomes \<open>[8,4,0,0]\<close> and adds 8, \<open>[2,2,2,2]\<close> becomes
  \<open>[4,4,0,0]\<close> (not \<open>[8,0,0,0]\<close>) and adds 8, and \<open>[2,4,4,2]\<close> becomes \<open>[2,8,2,0]\<close> and
  adds 8.
\<close>

theorem left_pushes_each_row:
  assumes "wf_board (g_tiles g)"
  shows "\<exists>c g'. left g = Some (c, g') \<and> length (g_tiles g') = 4 \<and>
      (\<forall>i<4. g_tiles g' ! i = fst (push_line (g_tiles g ! i))) \<and>
      g_score g' = g_score g + sum_list (map (\<lambda>r. snd (push_line r)) (g_tiles g)) \<and>
      (\<forall>i<4.
         (g_tiles g ! i = [0, 2, 0, 2] \<longrightarrow>
            g_tiles g' ! i = [4, 0, 0, 0] \<and> snd (push_line (g_tiles g ! i)) = 4) \<and>
         (g_tiles g ! i = [4, 0, 4, 4] \<longrightarrow>
            g_tiles g' ! i = [8, 4, 0, 0] \<and> snd (push_line (g_tiles g ! i)) = 8) \<and>
         (g_tiles g ! i = [2, 2, 2, 2] \<longrightarrow>
            g_tiles g' ! i = [4, 4, 0, 0] \<and> g_tiles g' ! i \<noteq> [8, 0, 0, 0] \<and>
            snd (push_line (g_tiles g ! i)) = 8) \<and>
         (g_tiles g ! i = [2, 4, 4, 2] \<longrightarrow>
            g_tiles g' ! i = [2, 8, 2, 0] \<and> snd (push_line (g_tiles g ! i)) = 8))"
proof -
  from assms have len: "length (g_tiles g) = 4" by (simp add: wf_board_def)
  have ex: "push_line [0, 2, 0, 2] = ([4, 0, 0, 0], 4)" "push_line [4, 0, 4, 4] = ([8, 4, 0, 0], 8)"
    "push_line [2, 2, 2, 2] = ([4, 4, 0, 0], 8)" "push_line [2, 4, 4, 2] = ([2, 8, 2, 0], 8)"
    by (simp_all add: push_line_def)
  show ?thesis
    unfolding left_spec[OF assms] using len by (auto simp: ex)
qed

theorem left_pushes_each_row_witness:
  "wf_board (g_tiles (game_of [[0, 2, 0, 2], [4, 0, 4, 4], [2, 2, 2, 2], [2, 4, 4, 2]] 0)) \<and>
   (\<exists>c g'. left (game_of [[0, 2, 0, 2], [4, 0, 4, 4], [2, 2, 2, 2], [2, 4, 4, 2]] 0) = Some (c, g') \<and>
      g_tiles g' = [[4, 0, 0, 0], [8, 4, 0, 0], [4, 4, 0, 0], [2, 8, 2, 0]] \<and> g_score g' = 28)"
proof -
  let ?g = "game_of [[0, 2, 0, 2], [4, 0, 4, 4], [2, 2, 2, 2], [2, 4, 4, 2]] 0"
  have wf: "wf_board (g_tiles ?g)" by (simp add: game_of_def wf_board_def)
  from left_pushes_each_row[OF wf] obtain c g' where l: "left ?g = Some (c, g')"
    and len: "length (g_tiles g') = 4"
    and score: "g_score g' = g_score ?g + sum_list (map (\<lambda>r. snd (push_line r)) (g_tiles ?g))"
    and rest: "\<forall>i<4.
         (g_tiles ?g ! i = [0, 2, 0, 2] \<longrightarrow>
            g_tiles g' ! i = [4, 0, 0, 0] \<and> snd (push_line (g_tiles ?g ! i)) = 4) \<and>
         (g_tiles ?g ! i = [4, 0, 4, 4] \<longrightarrow>
            g_tiles g' ! i = [8, 4, 0, 0] \<and> snd (push_line (g_tiles ?g ! i)) = 8) \<and>
         (g_tiles ?g ! i = [2, 2, 2, 2] \<longrightarrow>
            g_tiles g' ! i = [4, 4, 0, 0] \<and> g_tiles g' ! i \<noteq> [8, 0, 0, 0] \<and>
            snd (push_line (g_tiles ?g ! i)) = 8) \<and>
         (g_tiles ?g ! i = [2, 4, 4, 2] \<longrightarrow>
            g_tiles g' ! i = [2, 8, 2, 0] \<and> snd (push_line (g_tiles ?g ! i)) = 8)"
    by blast
  from rest have rows: "g_tiles g' ! 0 = [4, 0, 0, 0]" "g_tiles g' ! 1 = [8, 4, 0, 0]"
    "g_tiles g' ! 2 = [4, 4, 0, 0]" "g_tiles g' ! 3 = [2, 8, 2, 0]"
    and gains: "snd (push_line [0, 2, 0, 2]) = 4" "snd (push_line [4, 0, 4, 4]) = 8"
    "snd (push_line [2, 2, 2, 2]) = 8" "snd (push_line [2, 4, 4, 2]) = 8"
    unfolding all_less4 by (simp_all add: game_of_def)
  from rows len have "g_tiles g' = [[4, 0, 0, 0], [8, 4, 0, 0], [4, 4, 0, 0], [2, 8, 2, 0]]"
    by (auto simp: length4)
  moreover from score gains have "g_score g' = 28"
    by (simp add: game_of_def)
  ultimately show ?thesis using wf l by blast
qed

subsection \<open>The returned flag\<close>

text \<open>
  Claim C3. Each of \<^verbatim>\<open>left\<close>, \<^verbatim>\<open>right\<close>, \<^verbatim>\<open>up\<close> and \<^verbatim>\<open>down\<close> returns \<^verbatim>\<open>true\<close> if and
  only if the call changed the board: it returns \<^verbatim>\<open>false\<close> exactly when every cell holds
  the same value after the call as before, and then the score is unchanged as well.
\<close>

theorem changed_flag_exact:
  assumes "wf_board (g_tiles g)"
  shows "flag_exact left g \<and> flag_exact right g \<and> flag_exact up g \<and> flag_exact down g"
proof (intro conjI)
  show "flag_exact left g"
    by (rule lines_flag_exact[OF left_lines[OF assms]]) (simp_all add: assms)
  show "flag_exact right g"
    by (rule lines_flag_exact[OF right_lines[OF assms]])
      (simp_all add: assms mirror_board_twice wf_mirror_board)
  show "flag_exact up g"
    by (rule lines_flag_exact[OF up_lines[OF assms]])
      (simp_all add: assms transpose_board_twice wf_transpose_board)
  show "flag_exact down g"
    by (rule lines_flag_exact[OF down_lines[OF assms]])
      (simp_all add: assms transpose_board_twice mirror_board_twice wf_transpose_board wf_mirror_board)
qed

theorem changed_flag_exact_witness:
  "wf_board (g_tiles (game_of [[2, 4, 2, 4], [4, 2, 4, 2], [2, 4, 2, 4], [4, 2, 4, 0]] 7)) \<and>
   left (game_of [[2, 4, 2, 4], [4, 2, 4, 2], [2, 4, 2, 4], [4, 2, 4, 0]] 7) =
     Some (False, game_of [[2, 4, 2, 4], [4, 2, 4, 2], [2, 4, 2, 4], [4, 2, 4, 0]] 7) \<and>
   flag_exact left (game_of [[2, 4, 2, 4], [4, 2, 4, 2], [2, 4, 2, 4], [4, 2, 4, 0]] 7) \<and>
   flag_exact right (game_of [[2, 4, 2, 4], [4, 2, 4, 2], [2, 4, 2, 4], [4, 2, 4, 0]] 7) \<and>
   flag_exact up (game_of [[2, 4, 2, 4], [4, 2, 4, 2], [2, 4, 2, 4], [4, 2, 4, 0]] 7) \<and>
   flag_exact down (game_of [[2, 4, 2, 4], [4, 2, 4, 2], [2, 4, 2, 4], [4, 2, 4, 0]] 7)"
proof -
  let ?g = "game_of [[2, 4, 2, 4], [4, 2, 4, 2], [2, 4, 2, 4], [4, 2, 4, 0]] 7"
  have wf: "wf_board (g_tiles ?g)" by (simp add: game_of_def wf_board_def)
  have "left ?g = Some (False, ?g)"
    by (simp add: left_spec[OF wf]) (simp add: game_of_def push_line_def)
  with wf changed_flag_exact[OF wf] show ?thesis by simp
qed

subsection \<open>Symmetry\<close>

text \<open>
  Claim C4. On every board and score, \<^verbatim>\<open>right\<close> is \<^verbatim>\<open>left\<close> conjugated by the mirror
  image of the rows, \<^verbatim>\<open>up\<close> is \<^verbatim>\<open>left\<close> conjugated by transposition and \<^verbatim>\<open>down\<close> is
  \<^verbatim>\<open>right\<close> conjugated by transposition: the same flag, the same score, and the board
  turned back. All four pushes return on every board.
\<close>

theorem push_symmetry:
  assumes "wf_board (g_tiles g)"
  shows "left g \<noteq> None \<and> right g \<noteq> None \<and> up g \<noteq> None \<and> down g \<noteq> None \<and>
     right g = map_option (result_on mirror_board) (left (on_tiles mirror_board g)) \<and>
     up g = map_option (result_on transpose_board) (left (on_tiles transpose_board g)) \<and>
     down g = map_option (result_on transpose_board) (right (on_tiles transpose_board g))"
proof -
  have "left g \<noteq> None" "right g \<noteq> None" "up g \<noteq> None" "down g \<noteq> None"
    using left_lines[OF assms] right_lines[OF assms] up_lines[OF assms] down_lines[OF assms]
    by (simp_all add: pushes_lines_def)
  with right_conj[OF assms] up_conj[OF assms] down_conj[OF assms] show ?thesis
    by blast
qed

theorem push_symmetry_witness:
  "wf_board (g_tiles (game_of [[0, 2, 0, 2], [4, 0, 4, 4], [2, 2, 2, 2], [2, 4, 4, 2]] 5)) \<and>
   right (game_of [[0, 2, 0, 2], [4, 0, 4, 4], [2, 2, 2, 2], [2, 4, 4, 2]] 5) =
     Some (True, game_of [[0, 0, 0, 4], [0, 0, 4, 8], [0, 0, 4, 4], [0, 2, 8, 2]] 33) \<and>
   up (game_of [[0, 2, 0, 2], [4, 0, 4, 4], [2, 2, 2, 2], [2, 4, 4, 2]] 5) =
     Some (True, game_of [[4, 4, 4, 2], [4, 4, 2, 4], [0, 0, 4, 4], [0, 0, 0, 0]] 17) \<and>
   down (game_of [[0, 2, 0, 2], [4, 0, 4, 4], [2, 2, 2, 2], [2, 4, 4, 2]] 5) =
     Some (True, game_of [[0, 0, 0, 0], [0, 0, 4, 2], [4, 4, 2, 4], [4, 4, 4, 4]] 17)"
proof -
  let ?g = "game_of [[0, 2, 0, 2], [4, 0, 4, 4], [2, 2, 2, 2], [2, 4, 4, 2]] 5"
  have wf: "wf_board (g_tiles ?g)" by (simp add: game_of_def wf_board_def)
  have m: "on_tiles mirror_board ?g = game_of [[2, 0, 2, 0], [4, 4, 0, 4], [2, 2, 2, 2], [2, 4, 4, 2]] 5"
    and t: "on_tiles transpose_board ?g = game_of [[0, 4, 2, 2], [2, 0, 2, 4], [0, 4, 2, 4], [2, 4, 2, 2]] 5"
    by (simp_all add: on_tiles_def game_of_def mirror_board_def transpose_board_def)
  have wfm: "wf_board (g_tiles (game_of [[2, 0, 2, 0], [4, 4, 0, 4], [2, 2, 2, 2], [2, 4, 4, 2]] 5))"
    and wft: "wf_board (g_tiles (game_of [[0, 4, 2, 2], [2, 0, 2, 4], [0, 4, 2, 4], [2, 4, 2, 2]] 5))"
    by (simp_all add: game_of_def wf_board_def)
  have lm: "left (game_of [[2, 0, 2, 0], [4, 4, 0, 4], [2, 2, 2, 2], [2, 4, 4, 2]] 5) =
      Some (True, game_of [[4, 0, 0, 0], [8, 4, 0, 0], [4, 4, 0, 0], [2, 8, 2, 0]] 33)"
    by (simp add: left_spec[OF wfm]) (simp add: game_of_def push_line_def)
  have lt: "left (game_of [[0, 4, 2, 2], [2, 0, 2, 4], [0, 4, 2, 4], [2, 4, 2, 2]] 5) =
      Some (True, game_of [[4, 4, 0, 0], [4, 4, 0, 0], [4, 2, 4, 0], [2, 4, 4, 0]] 17)"
    by (simp add: left_spec[OF wft]) (simp add: game_of_def push_line_def)
  note S = push_symmetry[OF wf, unfolded m t]
  from S lm have r: "right ?g = Some (True, game_of [[0, 0, 0, 4], [0, 0, 4, 8], [0, 0, 4, 4], [0, 2, 8, 2]] 33)"
    by (simp add: result_on_def on_tiles_def game_of_def mirror_board_def)
  from S lt have u: "up ?g = Some (True, game_of [[4, 4, 4, 2], [4, 4, 2, 4], [0, 0, 4, 4], [0, 0, 0, 0]] 17)"
    by (simp add: result_on_def on_tiles_def game_of_def transpose_board_def)
  have wft': "wf_board (g_tiles (game_of [[0, 4, 2, 2], [2, 0, 2, 4], [0, 4, 2, 4], [2, 4, 2, 2]] 5))"
    by (simp add: game_of_def wf_board_def)
  have mt: "on_tiles mirror_board (game_of [[0, 4, 2, 2], [2, 0, 2, 4], [0, 4, 2, 4], [2, 4, 2, 2]] 5) =
      game_of [[2, 2, 4, 0], [4, 2, 0, 2], [4, 2, 4, 0], [2, 2, 4, 2]] 5"
    by (simp add: on_tiles_def game_of_def mirror_board_def)
  have wfmt: "wf_board (g_tiles (game_of [[2, 2, 4, 0], [4, 2, 0, 2], [4, 2, 4, 0], [2, 2, 4, 2]] 5))"
    by (simp add: game_of_def wf_board_def)
  have lmt: "left (game_of [[2, 2, 4, 0], [4, 2, 0, 2], [4, 2, 4, 0], [2, 2, 4, 2]] 5) =
      Some (True, game_of [[4, 4, 0, 0], [4, 4, 0, 0], [4, 2, 4, 0], [4, 4, 2, 0]] 17)"
    by (simp add: left_spec[OF wfmt]) (simp add: game_of_def push_line_def)
  from push_symmetry[OF wft', unfolded mt] lmt
  have rt: "right (game_of [[0, 4, 2, 2], [2, 0, 2, 4], [0, 4, 2, 4], [2, 4, 2, 2]] 5) =
      Some (True, game_of [[0, 0, 4, 4], [0, 0, 4, 4], [0, 4, 2, 4], [0, 2, 4, 4]] 17)"
    by (simp add: result_on_def on_tiles_def game_of_def mirror_board_def)
  from S rt have d: "down ?g = Some (True, game_of [[0, 0, 0, 0], [0, 0, 4, 2], [4, 4, 2, 4], [4, 4, 4, 4]] 17)"
    by (simp add: result_on_def on_tiles_def game_of_def transpose_board_def)
  from wf r u d show ?thesis by simp
qed

subsection \<open>Pushing twice\<close>








section \<open>The availability checker\<close>

lemma avail_scan_unroll:
  "avail_scan t i 0 =
     (case avail_cell t i 0 of None \<Rightarrow> None | Some True \<Rightarrow> Some True | Some False \<Rightarrow>
     (case avail_cell t i 1 of None \<Rightarrow> None | Some True \<Rightarrow> Some True | Some False \<Rightarrow>
     (case avail_cell t i 2 of None \<Rightarrow> None | Some True \<Rightarrow> Some True | Some False \<Rightarrow>
     (case avail_cell t i 3 of None \<Rightarrow> None | Some True \<Rightarrow> Some True | Some False \<Rightarrow> Some False))))"
  by (simp add: avail_scan.simps split: option.splits bool.splits)

lemma avail_rows_unroll:
  "avail_rows t 0 =
     (case avail_scan t 0 0 of None \<Rightarrow> None | Some True \<Rightarrow> Some True | Some False \<Rightarrow>
     (case avail_scan t 1 0 of None \<Rightarrow> None | Some True \<Rightarrow> Some True | Some False \<Rightarrow>
     (case avail_scan t 2 0 of None \<Rightarrow> None | Some True \<Rightarrow> Some True | Some False \<Rightarrow>
     (case avail_scan t 3 0 of None \<Rightarrow> None | Some True \<Rightarrow> Some True | Some False \<Rightarrow> Some False))))"
  by (simp add: avail_rows.simps split: option.splits bool.splits)

lemma avail_scan_inner:
  assumes "0 \<le> i" "i < 3" "t ! nat i = [a, b, c, d]" "t ! nat (i + 1) = [e, f, g, h]"
  shows "avail_scan t i 0 =
     Some (a = 0 \<or> b = 0 \<or> c = 0 \<or> d = 0 \<or> a = e \<or> b = f \<or> c = g \<or> d = h \<or>
           a = b \<or> b = c \<or> c = d)"
  using assms
  by (simp add: avail_scan_unroll avail_cell_def rd_def bool.case_eq_if)

lemma avail_scan_last:
  assumes "t ! 3 = [a, b, c, d]"
  shows "avail_scan t 3 0 = Some (a = 0 \<or> b = 0 \<or> c = 0 \<or> d = 0 \<or> a = b \<or> b = c \<or> c = d)"
  using assms
  by (simp add: avail_scan_unroll avail_cell_def rd_def bool.case_eq_if)

lemma move_available_spec:
  assumes "wf_board (g_tiles g)"
  shows "move_available g = Some (has_empty (g_tiles g) \<or> has_equal_pair (g_tiles g), g)"
proof -
  from assms obtain a0 a1 a2 a3 b0 b1 b2 b3 c0 c1 c2 c3 d0 d1 d2 d3 where
    t: "g_tiles g = [[a0,a1,a2,a3],[b0,b1,b2,b3],[c0,c1,c2,c3],[d0,d1,d2,d3]]"
    unfolding wf_board_explicit by blast
  have r0: "avail_scan (g_tiles g) 0 0 = Some (a0 = 0 \<or> a1 = 0 \<or> a2 = 0 \<or> a3 = 0 \<or> a0 = b0 \<or> a1 = b1 \<or> a2 = b2 \<or> a3 = b3 \<or> a0 = a1 \<or> a1 = a2 \<or> a2 = a3)"
    by (rule avail_scan_inner) (simp_all add: t)
  have r1: "avail_scan (g_tiles g) 1 0 = Some (b0 = 0 \<or> b1 = 0 \<or> b2 = 0 \<or> b3 = 0 \<or> b0 = c0 \<or> b1 = c1 \<or> b2 = c2 \<or> b3 = c3 \<or> b0 = b1 \<or> b1 = b2 \<or> b2 = b3)"
    by (rule avail_scan_inner) (simp_all add: t)
  have r2: "avail_scan (g_tiles g) 2 0 = Some (c0 = 0 \<or> c1 = 0 \<or> c2 = 0 \<or> c3 = 0 \<or> c0 = d0 \<or> c1 = d1 \<or> c2 = d2 \<or> c3 = d3 \<or> c0 = c1 \<or> c1 = c2 \<or> c2 = c3)"
    by (rule avail_scan_inner) (simp_all add: t)
  have r3: "avail_scan (g_tiles g) 3 0 = Some (d0 = 0 \<or> d1 = 0 \<or> d2 = 0 \<or> d3 = 0 \<or> d0 = d1 \<or> d1 = d2 \<or> d2 = d3)"
    by (rule avail_scan_last) (simp_all add: t)
  let ?R0 = "a0 = 0 \<or> a1 = 0 \<or> a2 = 0 \<or> a3 = 0 \<or> a0 = b0 \<or> a1 = b1 \<or> a2 = b2 \<or> a3 = b3 \<or> a0 = a1 \<or> a1 = a2 \<or> a2 = a3"
  let ?R1 = "b0 = 0 \<or> b1 = 0 \<or> b2 = 0 \<or> b3 = 0 \<or> b0 = c0 \<or> b1 = c1 \<or> b2 = c2 \<or> b3 = c3 \<or> b0 = b1 \<or> b1 = b2 \<or> b2 = b3"
  let ?R2 = "c0 = 0 \<or> c1 = 0 \<or> c2 = 0 \<or> c3 = 0 \<or> c0 = d0 \<or> c1 = d1 \<or> c2 = d2 \<or> c3 = d3 \<or> c0 = c1 \<or> c1 = c2 \<or> c2 = c3"
  let ?R3 = "d0 = 0 \<or> d1 = 0 \<or> d2 = 0 \<or> d3 = 0 \<or> d0 = d1 \<or> d1 = d2 \<or> d2 = d3"
  have rows: "avail_rows (g_tiles g) 0 = Some (?R0 \<or> ?R1 \<or> ?R2 \<or> ?R3)"
    unfolding avail_rows_unroll r0 r1 r2 r3
    by (cases ?R0; cases ?R1; cases ?R2; cases ?R3) simp_all
  have "has_empty (g_tiles g) \<or> has_equal_pair (g_tiles g) \<longleftrightarrow> ?R0 \<or> ?R1 \<or> ?R2 \<or> ?R3"
    unfolding has_empty_def has_equal_pair_def t
    by (simp only: list_ex_Nil_iff list_ex_Cons_iff) (simp; blast)
  with rows show ?thesis
    by (simp add: move_available_def)
qed

lemma has_empty_iff: "wf_board t \<Longrightarrow> has_empty t \<longleftrightarrow> 0 \<in> set (concat t)"
  unfolding wf_board_explicit has_empty_def by auto

text \<open>
  Claim C9. \<^verbatim>\<open>move_available\<close> returns \<^verbatim>\<open>false\<close> if and only if the board has no empty
  cell and no two cells next to each other, in a row or in a column, hold the same
  non-zero value; it returns \<^verbatim>\<open>true\<close> on every board that contains a zero; and the
  game after the call is the game before it.
\<close>

theorem move_available_exact:
  assumes "wf_board (g_tiles g)"
  shows "\<exists>b. move_available g = Some (b, g) \<and>
      (\<not> b \<longleftrightarrow> \<not> has_empty (g_tiles g) \<and> \<not> has_equal_pair (g_tiles g)) \<and>
      (has_empty (g_tiles g) \<longleftrightarrow> 0 \<in> set (concat (g_tiles g))) \<and>
      (0 \<in> set (concat (g_tiles g)) \<longrightarrow> b)"
  using move_available_spec[OF assms] has_empty_iff[OF assms] by simp

theorem move_available_exact_witness:
  "wf_board (g_tiles (game_of [[2, 4, 2, 4], [4, 2, 4, 2], [2, 4, 2, 4], [4, 2, 4, 2]] 0)) \<and>
   move_available (game_of [[2, 4, 2, 4], [4, 2, 4, 2], [2, 4, 2, 4], [4, 2, 4, 2]] 0) =
     Some (False, game_of [[2, 4, 2, 4], [4, 2, 4, 2], [2, 4, 2, 4], [4, 2, 4, 2]] 0) \<and>
   wf_board (g_tiles (game_of [[2, 4, 2, 4], [4, 2, 4, 2], [2, 4, 2, 4], [4, 2, 4, 0]] 0)) \<and>
   0 \<in> set (concat (g_tiles (game_of [[2, 4, 2, 4], [4, 2, 4, 2], [2, 4, 2, 4], [4, 2, 4, 0]] 0))) \<and>
   move_available (game_of [[2, 4, 2, 4], [4, 2, 4, 2], [2, 4, 2, 4], [4, 2, 4, 0]] 0) =
     Some (True, game_of [[2, 4, 2, 4], [4, 2, 4, 2], [2, 4, 2, 4], [4, 2, 4, 0]] 0)"
proof -
  let ?g1 = "game_of [[2, 4, 2, 4], [4, 2, 4, 2], [2, 4, 2, 4], [4, 2, 4, 2]] 0"
  let ?g2 = "game_of [[2, 4, 2, 4], [4, 2, 4, 2], [2, 4, 2, 4], [4, 2, 4, 0]] 0"
  have wf1: "wf_board (g_tiles ?g1)" and wf2: "wf_board (g_tiles ?g2)"
    by (simp_all add: game_of_def wf_board_def)
  have stuck: "\<not> has_empty (g_tiles ?g1)" "\<not> has_equal_pair (g_tiles ?g1)"
    by (simp_all add: game_of_def has_empty_def has_equal_pair_def)
  have z: "0 \<in> set (concat (g_tiles ?g2))"
    by (simp add: game_of_def)
  from move_available_exact[OF wf1] stuck have "move_available ?g1 = Some (False, ?g1)"
    by auto
  moreover from move_available_exact[OF wf2] z have "move_available ?g2 = Some (True, ?g2)"
    by auto
  ultimately show ?thesis using wf1 wf2 z by blast
qed

section \<open>The undo stack\<close>

lemma cint_small:
  assumes "0 \<le> sint (w::cint)" "sint w \<le> 4"
  shows "w = 0 \<or> w = 1 \<or> w = 2 \<or> w = 3 \<or> w = 4"
proof -
  from assms have "sint w = 0 \<or> sint w = 1 \<or> sint w = 2 \<or> sint w = 3 \<or> sint w = 4"
    by linarith
  moreover have "w = word_of_int (sint w)" by simp
  ultimately show ?thesis by (metis word_of_int_0 word_of_int_1 word_of_int_numeral)
qed

lemma top_step:
  assumes "0 \<le> sint (w::cint)" "sint w < 4"
  shows "slot (c_rem (w + 1) 4) = Some ((nat (sint w) + 1) mod 4)"
    and "sint (c_rem (w + 1) 4) = int ((nat (sint w) + 1) mod 4)"
    and "slot (if w \<noteq> 0 then w - 1 else 4 - 1) = Some ((nat (sint w) + 3) mod 4)"
    and "sint (c_rem (w + 4 - 1) 4) = int ((nat (sint w) + 3) mod 4)"
    and "sint (c_rem (3 + w) 4) = int ((nat (sint w) + 3) mod 4)"
proof -
  from assms cint_small[of w] have "w = 0 \<or> w = 1 \<or> w = 2 \<or> w = 3" by auto
  then show "slot (c_rem (w + 1) 4) = Some ((nat (sint w) + 1) mod 4)"
    and "sint (c_rem (w + 1) 4) = int ((nat (sint w) + 1) mod 4)"
    and "slot (if w \<noteq> 0 then w - 1 else 4 - 1) = Some ((nat (sint w) + 3) mod 4)"
    and "sint (c_rem (w + 4 - 1) 4) = int ((nat (sint w) + 3) mod 4)"
    and "sint (c_rem (3 + w) 4) = int ((nat (sint w) + 3) mod 4)"
    by (auto simp: c_rem_def slot_def signed_modulo_int_def)
qed

lemma size_step:
  assumes "0 \<le> sint (w::cint)" "sint w \<le> 4"
  shows "sint (if sint w < 4 then w + 1 else w) = int (min 4 (nat (sint w) + 1))"
    and "1 < sint w \<Longrightarrow> sint (w - 1) = int (nat (sint w) - 1)"
proof -
  from assms cint_small[of w] have "w = 0 \<or> w = 1 \<or> w = 2 \<or> w = 3 \<or> w = 4" by auto
  then show "sint (if sint w < 4 then w + 1 else w) = int (min 4 (nat (sint w) + 1))"
    and "1 < sint w \<Longrightarrow> sint (w - 1) = int (nat (sint w) - 1)"
    by auto
qed

lemma less4_cases: "k < 4 \<Longrightarrow> k = 0 \<or> k = 1 \<or> k = 2 \<or> k = (3::nat)"
  by linarith

lemma le4_cases: "n \<le> 4 \<Longrightarrow> n = 0 \<or> n = 1 \<or> n = 2 \<or> n = 3 \<or> n = (4::nat)"
  by linarith

lemma upt_small: "[0..<4] = [0, 1, 2, 3]" "[0..<3] = [0, 1, 2]" "[0..<2] = [0, 1]"
  by (simp_all add: upt_rec)

lemma snapshots_push:
  assumes "length ts = 4" "length ss = 4" "k < 4" "n \<le> 4"
  shows "snapshots (ts[(k + 1) mod 4 := t]) (ss[(k + 1) mod 4 := s]) ((k + 1) mod 4) (min 4 (n + 1)) =
         take 4 ((t, s) # snapshots ts ss k n)"
proof -
  from assms obtain t0 t1 t2 t3 s0 s1 s2 s3 where
    "ts = [t0, t1, t2, t3]" "ss = [s0, s1, s2, s3]"
    by (auto simp: length4)
  with less4_cases[OF assms(3)] le4_cases[OF assms(4)] show ?thesis
    by (elim disjE) (simp_all add: snapshots_def upt_small)
qed

lemma snapshots_pop:
  assumes "length ts = 4" "length ss = 4" "k < 4" "n \<le> 4" "1 < n"
  shows "snapshots ts ss ((k + 3) mod 4) (n - 1) = tl (snapshots ts ss k n)"
    and "snapshots ts ss k n ! 1 = (ts ! ((k + 3) mod 4), ss ! ((k + 3) mod 4))"
proof -
  from assms obtain t0 t1 t2 t3 s0 s1 s2 s3 where
    "ts = [t0, t1, t2, t3]" "ss = [s0, s1, s2, s3]"
    by (auto simp: length4)
  with less4_cases[OF assms(3)] le4_cases[OF assms(4)] assms(5)
  show "snapshots ts ss ((k + 3) mod 4) (n - 1) = tl (snapshots ts ss k n)"
    and "snapshots ts ss k n ! 1 = (ts ! ((k + 3) mod 4), ss ! ((k + 3) mod 4))"
    by (elim disjE; simp add: snapshots_def upt_small)+
qed

lemma push_undo_history:
  assumes wf: "wf_game g" and ok: "stack_ok (g_undo g)"
  shows "\<exists>g'. push_undo g = Some g' \<and> wf_game g' \<and> stack_ok (g_undo g') \<and>
      g_tiles g' = g_tiles g \<and> g_score g' = g_score g \<and>
      history (g_undo g') = take 4 ((g_tiles g, g_score g) # history (g_undo g))"
proof -
  let ?u = "g_undo g"
  let ?k = "nat (sint (undo_top ?u))" and ?n = "nat (sint (undo_size ?u))"
  from ok have t: "0 \<le> sint (undo_top ?u)" "sint (undo_top ?u) < 4"
    and s: "0 \<le> sint (undo_size ?u)" "sint (undo_size ?u) \<le> 4"
    by (simp_all add: stack_ok_def)
  from wf have len: "length (undo_tiles ?u) = 4" "length (undo_score ?u) = 4"
    and wfb: "wf_board (g_tiles g)" "\<forall>t\<in>set (undo_tiles ?u). wf_board t"
    by (simp_all add: wf_game_def wf_stack_def)
  let ?k' = "(?k + 1) mod 4"
  let ?u' = "\<lparr>undo_tiles = (undo_tiles ?u)[?k' := g_tiles g],
              undo_score = (undo_score ?u)[?k' := g_score g],
              undo_top = c_rem (undo_top ?u + 1) 4,
              undo_size = (if sint (undo_size ?u) < 4 then undo_size ?u + 1 else undo_size ?u)\<rparr>"
  have p: "push_undo g = Some (g\<lparr>g_undo := ?u'\<rparr>)"
    by (simp add: push_undo_def Let_def top_step(1)[OF t])
  have k: "?k < 4" "?n \<le> 4" using t s by simp_all
  have top': "nat (sint (undo_top ?u')) = ?k'"
    by (simp add: top_step(2)[OF t])
  have size': "nat (sint (undo_size ?u')) = min 4 (?n + 1)"
    using size_step(1)[OF s] by simp
  have h: "history ?u' = take 4 ((g_tiles g, g_score g) # history ?u)"
    unfolding history_def top' size'
    using snapshots_push[OF len k, of "g_tiles g" "g_score g"] by simp
  have ok': "stack_ok ?u'"
    unfolding stack_ok_def using top_step(2)[OF t] size_step(1)[OF s] by simp
  have "wf_stack ?u'"
    using len wfb by (auto simp: wf_stack_def dest!: set_update_subset_insert[THEN subsetD])
  with wfb have "wf_game (g\<lparr>g_undo := ?u'\<rparr>)"
    by (simp add: wf_game_def)
  with p h ok' show ?thesis by simp
qed

lemma take_append_take: "take n (xs @ take n ys) = take n (xs @ ys)"
  by (simp add: min_absorb1)

lemma push_all_history:
  assumes "wf_game g" "stack_ok (g_undo g)" "\<forall>x\<in>set snaps. wf_board (fst x)"
  shows "\<exists>g'. push_all snaps g = Some g' \<and> wf_game g' \<and> stack_ok (g_undo g') \<and>
      history (g_undo g') = take 4 (rev snaps @ history (g_undo g))"
  using assms
proof (induction snaps arbitrary: g)
  case Nil
  have "length (history (g_undo g)) \<le> 4"
    using Nil.prems(2) by (auto simp: history_def snapshots_def stack_ok_def)
  then show ?case using Nil by simp
next
  case (Cons x snaps)
  obtain t sc where x: "x = (t, sc)" by (cases x)
  let ?g = "g\<lparr>g_tiles := t, g_score := sc\<rparr>"
  from Cons.prems x have wf: "wf_game ?g" and ok: "stack_ok (g_undo ?g)"
    by (simp_all add: wf_game_def)
  from push_undo_history[OF wf ok] obtain g1 where
    p: "push_undo ?g = Some g1" and wf1: "wf_game g1" and ok1: "stack_ok (g_undo g1)"
    and h1: "history (g_undo g1) = take 4 ((t, sc) # history (g_undo g))"
    by auto
  from Cons.prems have "\<forall>x\<in>set snaps. wf_board (fst x)" by simp
  from Cons.IH[OF wf1 ok1 this] obtain g' where
    pa: "push_all snaps g1 = Some g'" and wf': "wf_game g'" and ok': "stack_ok (g_undo g')"
    and h': "history (g_undo g') = take 4 (rev snaps @ history (g_undo g1))"
    by auto
  have "take 4 (rev snaps @ take 4 ((t, sc) # history (g_undo g))) =
        take 4 (rev snaps @ (t, sc) # history (g_undo g))"
    by (rule take_append_take)
  with h' h1 have "history (g_undo g') = take 4 (rev (x # snaps) @ history (g_undo g))"
    by (simp add: x)
  with pa p wf' ok' show ?case by (simp add: x)
qed

lemma pop_undo_empty:
  "sint (undo_size (g_undo g)) \<le> 1 \<Longrightarrow> pop_undo g = Some (False, g)"
  by (simp add: pop_undo_def Let_def)

lemma pop_undo_history:
  assumes wf: "wf_game g" and ok: "stack_ok (g_undo g)" and big: "1 < sint (undo_size (g_undo g))"
  shows "\<exists>g'. pop_undo g = Some (True, g') \<and> wf_stack (g_undo g') \<and> stack_ok (g_undo g') \<and>
      (g_tiles g', g_score g') = history (g_undo g) ! 1 \<and>
      history (g_undo g') = tl (history (g_undo g)) \<and>
      sint (undo_size (g_undo g')) = sint (undo_size (g_undo g)) - 1"
proof -
  let ?u = "g_undo g"
  let ?k = "nat (sint (undo_top ?u))" and ?n = "nat (sint (undo_size ?u))"
  from ok have t: "0 \<le> sint (undo_top ?u)" "sint (undo_top ?u) < 4"
    and s: "0 \<le> sint (undo_size ?u)" "sint (undo_size ?u) \<le> 4"
    by (simp_all add: stack_ok_def)
  from wf have len: "length (undo_tiles ?u) = 4" "length (undo_score ?u) = 4"
    and wfs: "wf_stack ?u"
    by (simp_all add: wf_game_def wf_stack_def)
  let ?k' = "(?k + 3) mod 4"
  let ?u' = "?u\<lparr>undo_top := c_rem (undo_top ?u + 4 - 1) 4, undo_size := undo_size ?u - 1\<rparr>"
  let ?g' = "g\<lparr>g_tiles := undo_tiles ?u ! ?k', g_score := undo_score ?u ! ?k', g_undo := ?u'\<rparr>"
  have p: "pop_undo g = Some (True, ?g')"
    using big top_step(3)[OF t] by (simp add: pop_undo_def Let_def)
  have k: "?k < 4" "?n \<le> 4" "1 < ?n" using t s big by simp_all
  have top': "nat (sint (undo_top ?u')) = ?k'"
    by (simp add: top_step(5)[OF t])
  have size': "nat (sint (undo_size ?u')) = ?n - 1"
    using size_step(2)[OF s big] by simp
  have h: "history ?u' = tl (history ?u)"
    unfolding history_def top' size' using snapshots_pop(1)[OF len k] by simp
  have live: "(g_tiles ?g', g_score ?g') = history ?u ! 1"
    unfolding history_def using snapshots_pop(2)[OF len k] by simp
  have ok': "stack_ok ?u'"
    unfolding stack_ok_def using top_step(5)[OF t] size_step(2)[OF s big] s by simp
  have "wf_stack ?u'" using wfs by (simp add: wf_stack_def)
  moreover have "sint (undo_size ?u') = sint (undo_size ?u) - 1"
    using size_step(2)[OF s big] big by simp
  ultimately show ?thesis using p h live ok' by simp
qed

text \<open>
  Claim C6. On a stack that satisfies its invariant, \<^verbatim>\<open>push_undo\<close> always succeeds, keeps
  the live board and score, and puts their snapshot in front of the four it holds, the
  oldest being dropped when the stack is full; so after \<open>K + 1\<close> or more pushes (already
  after \<open>K = 4\<close>) the stack holds exactly the four snapshots pushed last. \<^verbatim>\<open>pop_undo\<close> at
  size 1 returns \<^verbatim>\<open>false\<close> and leaves the whole game as it is; at size 2 it succeeds
  once, the snapshot pushed just before the top becoming the live board and score, and
  fails when called again.
\<close>

theorem undo_stack_bounded:
  assumes "wf_game g" "stack_ok (g_undo g)"
  shows "(\<exists>g'. push_undo g = Some g' \<and> wf_game g' \<and> stack_ok (g_undo g') \<and>
            g_tiles g' = g_tiles g \<and> g_score g' = g_score g \<and>
            history (g_undo g') = take 4 ((g_tiles g, g_score g) # history (g_undo g))) \<and>
         (\<forall>snaps. list_all (\<lambda>x. wf_board (fst x)) snaps \<and> 4 \<le> length snaps \<longrightarrow>
            (\<exists>g'. push_all snaps g = Some g' \<and> length (history (g_undo g')) = 4 \<and>
               history (g_undo g') = take 4 (rev snaps))) \<and>
         (undo_size (g_undo g) = 1 \<longrightarrow> pop_undo g = Some (False, g)) \<and>
         (undo_size (g_undo g) = 2 \<longrightarrow>
            (\<exists>g'. pop_undo g = Some (True, g') \<and>
               (g_tiles g', g_score g') = history (g_undo g) ! 1 \<and>
               pop_undo g' = Some (False, g')))"
proof (intro conjI allI impI)
  show "\<exists>g'. push_undo g = Some g' \<and> wf_game g' \<and> stack_ok (g_undo g') \<and>
            g_tiles g' = g_tiles g \<and> g_score g' = g_score g \<and>
            history (g_undo g') = take 4 ((g_tiles g, g_score g) # history (g_undo g))"
    by (rule push_undo_history[OF assms])
next
  fix snaps :: "(board \<times> cint) list"
  assume a: "list_all (\<lambda>x. wf_board (fst x)) snaps \<and> 4 \<le> length snaps"
  then have "\<forall>x\<in>set snaps. wf_board (fst x)" by (simp add: list_all_iff)
  from push_all_history[OF assms this] obtain g' where
    "push_all snaps g = Some g'" "history (g_undo g') = take 4 (rev snaps @ history (g_undo g))"
    by auto
  with a show "\<exists>g'. push_all snaps g = Some g' \<and> length (history (g_undo g')) = 4 \<and>
      history (g_undo g') = take 4 (rev snaps)"
    by simp
next
  assume "undo_size (g_undo g) = 1"
  then show "pop_undo g = Some (False, g)"
    by (simp add: pop_undo_empty)
next
  assume two: "undo_size (g_undo g) = 2"
  then have "1 < sint (undo_size (g_undo g))" by simp
  from pop_undo_history[OF assms this] two obtain g' where
    p: "pop_undo g = Some (True, g')" "(g_tiles g', g_score g') = history (g_undo g) ! 1"
    and "sint (undo_size (g_undo g')) = 1"
    by auto
  then have "pop_undo g' = Some (False, g')"
    by (simp add: pop_undo_empty)
  with p show "\<exists>g'. pop_undo g = Some (True, g') \<and>
      (g_tiles g', g_score g') = history (g_undo g) ! 1 \<and> pop_undo g' = Some (False, g')"
    by blast
qed

theorem undo_stack_bounded_witness:
  "wf_game (game_with (replicate 4 (row_of 4)) 8
      [replicate 4 (row_of 0), replicate 4 (row_of 2), replicate 4 (row_of 4), replicate 4 (row_of 0)]
      [0, 4, 8, 0] 2 2) \<and>
   stack_ok (g_undo (game_with (replicate 4 (row_of 4)) 8
      [replicate 4 (row_of 0), replicate 4 (row_of 2), replicate 4 (row_of 4), replicate 4 (row_of 0)]
      [0, 4, 8, 0] 2 2)) \<and>
   (\<exists>g'. pop_undo (game_with (replicate 4 (row_of 4)) 8
      [replicate 4 (row_of 0), replicate 4 (row_of 2), replicate 4 (row_of 4), replicate 4 (row_of 0)]
      [0, 4, 8, 0] 2 2) = Some (True, g') \<and>
      g_tiles g' = replicate 4 (row_of 2) \<and> g_score g' = 4 \<and> pop_undo g' = Some (False, g')) \<and>
   (\<exists>g'. push_all [(replicate 4 (row_of 8), 16), (replicate 4 (row_of 16), 32),
                    (replicate 4 (row_of 32), 64), (replicate 4 (row_of 64), 128),
                    (replicate 4 (row_of 128), 256)]
       (game_with (replicate 4 (row_of 4)) 8
      [replicate 4 (row_of 0), replicate 4 (row_of 2), replicate 4 (row_of 4), replicate 4 (row_of 0)]
      [0, 4, 8, 0] 2 2) = Some g' \<and>
      history (g_undo g') =
        [(replicate 4 (row_of 128), 256), (replicate 4 (row_of 64), 128),
         (replicate 4 (row_of 32), 64), (replicate 4 (row_of 16), 32)])"
proof -
  let ?g = "game_with (replicate 4 (row_of 4)) 8
      [replicate 4 (row_of 0), replicate 4 (row_of 2), replicate 4 (row_of 4), replicate 4 (row_of 0)]
      [0, 4, 8, 0] 2 2"
  let ?snaps = "[(replicate 4 (row_of 8), 16), (replicate 4 (row_of 16), 32),
                    (replicate 4 (row_of 32), 64), (replicate 4 (row_of 64), 128),
                    (replicate 4 (row_of 128), 256)] :: (board \<times> cint) list"
  have wf: "wf_game ?g"
    by (simp add: game_with_def wf_game_def wf_stack_def wf_board_def)
  have ok: "stack_ok (g_undo ?g)"
    by (simp add: game_with_def stack_ok_def)
  have two: "undo_size (g_undo ?g) = 2"
    by (simp add: game_with_def)
  have h: "history (g_undo ?g) ! 1 = (replicate 4 (row_of 2), 4)"
    by (simp add: game_with_def history_def snapshots_def upt_small)
  have sn: "list_all (\<lambda>x. wf_board (fst x)) ?snaps \<and> 4 \<le> length ?snaps"
    by (simp add: wf_board_def)
  note T = undo_stack_bounded[OF wf ok]
  from T two h have "\<exists>g'. pop_undo ?g = Some (True, g') \<and>
      g_tiles g' = replicate 4 (row_of 2) \<and> g_score g' = 4 \<and> pop_undo g' = Some (False, g')"
    by auto
  moreover from T sn have "\<exists>g'. push_all ?snaps ?g = Some g' \<and> history (g_undo g') = take 4 (rev ?snaps)"
    by blast
  then have "\<exists>g'. push_all ?snaps ?g = Some g' \<and> history (g_undo g') =
        [(replicate 4 (row_of 128), 256), (replicate 4 (row_of 64), 128),
         (replicate 4 (row_of 32), 64), (replicate 4 (row_of 16), 32)]"
    by simp
  ultimately show ?thesis using wf ok by blast
qed

section \<open>The spawner\<close>

lemma count_scan_unroll:
  "count_scan t i 0 z =
     do { a \<leftarrow> rd t i 0; b \<leftarrow> rd t i 1; c \<leftarrow> rd t i 2; d \<leftarrow> rd t i 3;
          Some (z + (if a = 0 then 1 else 0) + (if b = 0 then 1 else 0) + (if c = 0 then 1 else 0)
                  + (if d = 0 then 1 else 0)) }"
  by (simp add: count_scan.simps split: option.splits)

lemma count_scan_row:
  assumes "0 \<le> i" "i < 4" "t ! nat i = [a, b, c, d]"
  shows "count_scan t i 0 z = Some (z + int (zeros_in [a, b, c, d]))"
  using assms by (simp add: count_scan_unroll rd_def zeros_in_def)

lemma count_rows_unroll:
  "count_rows t 0 z =
     do { z0 \<leftarrow> count_scan t 0 0 z; z1 \<leftarrow> count_scan t 1 0 z0; z2 \<leftarrow> count_scan t 2 0 z1;
          count_scan t 3 0 z2 }"
  by (simp add: count_rows.simps split: option.splits)

lemma zeros_in_append: "zeros_in (xs @ ys) = zeros_in xs + zeros_in ys"
  by (simp add: zeros_in_def)

lemma count_rows_board:
  assumes "wf_board t"
  shows "count_rows t 0 0 = Some (int (zeros_in (concat t)))"
proof -
  from assms obtain a0 a1 a2 a3 b0 b1 b2 b3 c0 c1 c2 c3 d0 d1 d2 d3 where
    t: "t = [[a0,a1,a2,a3],[b0,b1,b2,b3],[c0,c1,c2,c3],[d0,d1,d2,d3]]"
    unfolding wf_board_explicit by blast
  have "count_scan t 0 0 z = Some (z + int (zeros_in [a0,a1,a2,a3]))"
    "count_scan t 1 0 z = Some (z + int (zeros_in [b0,b1,b2,b3]))"
    "count_scan t 2 0 z = Some (z + int (zeros_in [c0,c1,c2,c3]))"
    "count_scan t 3 0 z = Some (z + int (zeros_in [d0,d1,d2,d3]))" for z
    by (rule count_scan_row; simp add: t)+
  then have "count_rows t 0 0 = Some (int (zeros_in [a0,a1,a2,a3]) + int (zeros_in [b0,b1,b2,b3])
       + int (zeros_in [c0,c1,c2,c3]) + int (zeros_in [d0,d1,d2,d3]))"
    by (simp add: count_rows_unroll)
  also have "concat t = [a0,a1,a2,a3] @ [b0,b1,b2,b3] @ [c0,c1,c2,c3] @ [d0,d1,d2,d3]"
    by (simp add: t)
  then have "int (zeros_in [a0,a1,a2,a3]) + int (zeros_in [b0,b1,b2,b3])
       + int (zeros_in [c0,c1,c2,c3]) + int (zeros_in [d0,d1,d2,d3]) = int (zeros_in (concat t))"
    by (simp only: zeros_in_append)
  finally show ?thesis .
qed

lemma place_scan_explicit:
  assumes "length t = 4" "0 \<le> i" "i < 4" "t ! nat i = [a, b, c, d]" "g_tiles g = t"
  shows "place_scan g (z + int k) v i 0 z =
     (if k < zeros_in [a, b, c, d]
      then Some (Inl (g\<lparr>g_tiles := t[nat i := place_line [a, b, c, d] k v]\<rparr>))
      else Some (Inr (z + int (zeros_in [a, b, c, d]))))"
proof -
  consider "k = 0" | "k = 1" | "k = 2" | "k = 3" | e where "k = 4 + e"
    by (metis add.commute le_add_diff_inverse2 less4_cases not_less)
  then show ?thesis
    using assms
    by cases
      (cases "a = 0"; cases "b = 0"; cases "c = 0"; cases "d = 0";
        simp add: place_scan.simps rd_def wr_def zeros_in_def)+
qed

lemma place_scan_row:
  assumes "wf_board (g_tiles g)" "0 \<le> i" "i < 4" "z \<le> np"
  shows "place_scan g np v i 0 z =
     (if nat (np - z) < zeros_in (g_tiles g ! nat i)
      then Some (Inl (g\<lparr>g_tiles := (g_tiles g)[nat i := place_line (g_tiles g ! nat i) (nat (np - z)) v]\<rparr>))
      else Some (Inr (z + int (zeros_in (g_tiles g ! nat i)))))"
proof -
  from assms have len: "length (g_tiles g) = 4" "length (g_tiles g ! nat i) = 4"
    by (auto simp: wf_board_def)
  then obtain a b c d where r: "g_tiles g ! nat i = [a, b, c, d]"
    by (auto simp: length4)
  from assms(4) have np: "np = z + int (nat (np - z))" by simp
  show ?thesis
    unfolding r
    by (subst np) (rule place_scan_explicit[OF len(1) assms(2,3) r refl])
qed

lemma place_rows_spec:
  "wf_board (g_tiles g) \<Longrightarrow> 0 \<le> i \<Longrightarrow> i \<le> 4 \<Longrightarrow> z \<le> np \<Longrightarrow>
     place_rows g np v i z =
       (if nat (np - z) < zeros_in (concat (drop (nat i) (g_tiles g)))
        then Some (Inl (g\<lparr>g_tiles := take (nat i) (g_tiles g) @
                                       place_board (drop (nat i) (g_tiles g)) (nat (np - z)) v\<rparr>))
        else Some (Inr (z + int (zeros_in (concat (drop (nat i) (g_tiles g)))))))"
proof (induction g np v i z rule: place_rows.induct)
  case (1 g np v i z)
  note wf = "1.prems"(1) and i0 = "1.prems"(2) and i4 = "1.prems"(3) and znp = "1.prems"(4)
  from wf have len: "length (g_tiles g) = 4" by (simp add: wf_board_def)
  show ?case
  proof (cases "i < 4")
    case False
    with "1.prems" len show ?thesis
      by (simp add: place_rows.simps zeros_in_def)
  next
    case True
    let ?t = "g_tiles g"
    let ?r = "?t ! nat i"
    have i: "nat i < length ?t" using True "1.prems" len by simp
    have dr: "drop (nat i) ?t = ?r # drop (nat (i + 1)) ?t"
      using Cons_nth_drop_Suc[OF i] "1.prems" by (simp add: nat_add_distrib)
    have tk: "take (nat (i + 1)) ?t = take (nat i) ?t @ [?r]"
      using take_Suc_conv_app_nth[OF i] "1.prems" by (simp add: nat_add_distrib)
    note row = place_scan_row[OF wf i0 True znp, of v]
    show ?thesis
    proof (cases "nat (np - z) < zeros_in ?r")
      case hit: True
      have "?t[nat i := place_line ?r (nat (np - z)) v] =
            take (nat i) ?t @ place_line ?r (nat (np - z)) v # drop (nat (i + 1)) ?t"
        using upd_conv_take_nth_drop[OF i] "1.prems" by (simp add: nat_add_distrib)
      with hit True row show ?thesis
        by (simp add: place_rows.simps[of g np v i z] dr zeros_in_append)
    next
      case miss: False
      define D where "D = drop (nat (i + 1)) ?t"
      define z' where "z' = z + int (zeros_in ?r)"
      define K where "K = nat (np - z)"
      from miss row have ps: "place_scan g np v i 0 z = Some (Inr z')"
        by (simp add: z'_def)
      from miss znp have le: "z' \<le> np" unfolding z'_def by linarith
      have k: "nat (np - z') = K - zeros_in ?r" unfolding z'_def K_def by linarith
      from miss have Kge: "zeros_in ?r \<le> K" unfolding K_def by simp
      from i0 True have "0 \<le> i + 1" "i + 1 \<le> 4" by simp_all
      note IH = "1.IH"[OF True ps refl wf this le, folded D_def, unfolded k tk]
      have step: "place_rows g np v i z = place_rows g np v (i + 1) z'"
        by (subst place_rows.simps) (simp add: True ps)
      have c: "concat (drop (nat i) ?t) = ?r @ concat D"
        by (simp add: dr D_def)
      have pb: "place_board (drop (nat i) ?t) K v = ?r # place_board D (K - zeros_in ?r) v"
        using Kge by (simp add: dr D_def)
      show ?thesis
        unfolding step IH K_def[symmetric] c pb zeros_in_append
        using Kge by (auto simp: z'_def)
    qed
  qed
qed

lemma place_line_spec:
  "k < zeros_in r \<Longrightarrow>
     \<exists>j<length r. r ! j = 0 \<and> zeros_in (take j r) = k \<and> place_line r k v = r[j := v]"
proof (induction r arbitrary: k)
  case Nil
  then show ?case by (simp add: zeros_in_def)
next
  case (Cons c cs)
  show ?case
  proof (cases "c = 0 \<and> k = 0")
    case True
    then have "(c # cs) ! 0 = 0 \<and> zeros_in (take 0 (c # cs)) = k \<and>
        place_line (c # cs) k v = (c # cs)[0 := v]"
      by (simp add: zeros_in_def)
    then show ?thesis by blast
  next
    case False
    define k' where "k' = (if c = 0 then k - 1 else k)"
    from False Cons.prems have "k' < zeros_in cs"
      by (auto simp: k'_def zeros_in_def)
    from Cons.IH[OF this] obtain j where j: "j < length cs" "cs ! j = 0"
      "zeros_in (take j cs) = k'" "place_line cs k' v = cs[j := v]"
      by blast
    with False have "Suc j < length (c # cs) \<and> (c # cs) ! Suc j = 0 \<and>
        zeros_in (take (Suc j) (c # cs)) = k \<and> place_line (c # cs) k v = (c # cs)[Suc j := v]"
      by (auto simp: k'_def zeros_in_def)
    then show ?thesis by blast
  qed
qed

lemma place_board_spec:
  "k < zeros_in (concat t) \<Longrightarrow>
     \<exists>i j. i < length t \<and> j < length (t ! i) \<and> t ! i ! j = 0 \<and>
       zeros_in (concat (take i t)) + zeros_in (take j (t ! i)) = k \<and>
       place_board t k v = t[i := (t ! i)[j := v]]"
proof (induction t arbitrary: k)
  case Nil
  then show ?case by (simp add: zeros_in_def)
next
  case (Cons r rs)
  show ?case
  proof (cases "k < zeros_in r")
    case True
    from place_line_spec[OF this, of v] obtain j where "j < length r" "r ! j = 0"
      "zeros_in (take j r) = k" "place_line r k v = r[j := v]"
      by blast
    with True have "0 < length (r # rs) \<and> j < length ((r # rs) ! 0) \<and> (r # rs) ! 0 ! j = 0 \<and>
        zeros_in (concat (take 0 (r # rs))) + zeros_in (take j ((r # rs) ! 0)) = k \<and>
        place_board (r # rs) k v = (r # rs)[0 := ((r # rs) ! 0)[j := v]]"
      by (simp add: zeros_in_def)
    then show ?thesis by blast
  next
    case False
    with Cons.prems have "k - zeros_in r < zeros_in (concat rs)"
      by (simp add: zeros_in_append)
    from Cons.IH[OF this] obtain i j where ij: "i < length rs" "j < length (rs ! i)"
      "rs ! i ! j = 0" "zeros_in (concat (take i rs)) + zeros_in (take j (rs ! i)) = k - zeros_in r"
      "place_board rs (k - zeros_in r) v = rs[i := (rs ! i)[j := v]]"
      by blast
    with False have "Suc i < length (r # rs) \<and> j < length ((r # rs) ! Suc i) \<and>
        (r # rs) ! Suc i ! j = 0 \<and>
        zeros_in (concat (take (Suc i) (r # rs))) + zeros_in (take j ((r # rs) ! Suc i)) = k \<and>
        place_board (r # rs) k v = (r # rs)[Suc i := ((r # rs) ! Suc i)[j := v]]"
      by (simp add: zeros_in_append)
    then show ?thesis by blast
  qed
qed

lemma filter_update_count:
  "j < length xs \<Longrightarrow> \<not> P (xs ! j) \<Longrightarrow> P v \<Longrightarrow>
     length (filter P (xs[j := v])) = Suc (length (filter P xs))"
proof (induction xs arbitrary: j)
  case Nil
  then show ?case by simp
next
  case (Cons x xs)
  then show ?case by (cases j) auto
qed

lemma nonempty_count_update:
  assumes "i < length t" "j < length (t ! i)" "t ! i ! j = 0" "v \<noteq> 0"
  shows "nonempty_count (t[i := (t ! i)[j := v]]) = nonempty_count t + 1"
proof -
  let ?P = "\<lambda>c::cint. c \<noteq> 0"
  have t: "t = take i t @ t ! i # drop (Suc i) t"
    using assms(1) by (rule id_take_nth_drop)
  have u: "t[i := (t ! i)[j := v]] = take i t @ (t ! i)[j := v] # drop (Suc i) t"
    using assms(1) by (rule upd_conv_take_nth_drop)
  have "length (filter ?P ((t ! i)[j := v])) = Suc (length (filter ?P (t ! i)))"
    using assms by (intro filter_update_count) simp_all
  then have "length (filter ?P (concat (take i t @ (t ! i)[j := v] # drop (Suc i) t))) =
        Suc (length (filter ?P (concat (take i t @ t ! i # drop (Suc i) t))))"
    by simp
  with t u show ?thesis
    unfolding nonempty_count_def by simp
qed

lemma zeros_in_none: "zeros_in r = 0 \<longleftrightarrow> 0 \<notin> set r"
  by (auto simp: zeros_in_def filter_empty_conv)

lemma zeros_in_some: "0 < zeros_in r \<longleftrightarrow> 0 \<in> set r"
  using zeros_in_none[of r] by auto

lemma placement_in_range:
  assumes "d1 < 2 ^ 48" "0 < n"
  shows "0 \<le> (int d1 * int n) div 2 ^ 48" "nat ((int d1 * int n) div 2 ^ 48) < n"
proof -
  have e: "(int d1 * int n) div 2 ^ 48 = int ((d1 * n) div 2 ^ 48)"
    by (simp add: zdiv_int)
  from assms have "d1 * n < n * 2 ^ 48" by simp
  then have "(d1 * n) div 2 ^ 48 < n" by (rule less_mult_imp_div_less)
  then show "0 \<le> (int d1 * int n) div 2 ^ 48" "nat ((int d1 * int n) div 2 ^ 48) < n"
    unfolding e by simp_all
qed

lemma new_tile_places:
  assumes wf: "wf_board (g_tiles g)" and z: "0 \<in> set (concat (g_tiles g))"
    and d: "random_tiles \<longrightarrow> d1 < 2 ^ 48"
  shows "\<exists>k v. k < zeros_in (concat (g_tiles g)) \<and> (v = 2 \<or> v = 4) \<and>
      (\<not> random_tiles \<longrightarrow> k = 0 \<and> v = 2) \<and>
      new_tile random_tiles d1 d2 g = Some (g\<lparr>g_tiles := place_board (g_tiles g) k v\<rparr>)"
proof -
  let ?n = "zeros_in (concat (g_tiles g))"
  let ?np = "if random_tiles then (int d1 * int ?n) div 2 ^ 48 else 0"
  let ?v = "(if random_tiles then (if d2 * 2 ^ 5 < 8106479329266893 then 2 else 4) else 2) :: cint"
  from z have n: "0 < ?n" by (simp add: zeros_in_some)
  have np: "0 \<le> ?np" "nat ?np < ?n"
    using placement_in_range[OF _ n, of d1] d n by auto
  have "place_rows g ?np ?v 0 0 = Some (Inl (g\<lparr>g_tiles := place_board (g_tiles g) (nat ?np) ?v\<rparr>))"
    using place_rows_spec[OF wf, of 0 0 ?np ?v] np by simp
  then have "new_tile random_tiles d1 d2 g = Some (g\<lparr>g_tiles := place_board (g_tiles g) (nat ?np) ?v\<rparr>)"
    by (simp add: new_tile_def count_rows_board[OF wf] Let_def)
  moreover have "?v = 2 \<or> ?v = 4" by simp
  moreover have "\<not> random_tiles \<longrightarrow> nat ?np = 0 \<and> ?v = 2" by simp
  ultimately show ?thesis using np(2) by blast
qed

lemma nth_update_cell:
  assumes "i < length t" "a < length t"
  shows "t[i := (t ! i)[j := v]] ! a ! b = (if a = i \<and> b = j \<and> j < length (t ! i) then v else t ! a ! b)"
  using assms by (cases "a = i"; cases "b = j"; cases "j < length (t ! i)") (simp_all add: list_update_beyond)

text \<open>
  Claim C10. On every board with an empty cell \<^verbatim>\<open>new_tile\<close> returns, and the board
  afterwards is the board before with one cell written: a cell that was empty, and that
  now holds 2 or 4. No cell that held a tile has changed, and there is exactly one tile
  more. With \<^verbatim>\<open>random_tiles\<close> false the value is 2 and the cell is the first empty one
  in row-major order; with \<^verbatim>\<open>random_tiles\<close> true this holds for all draws of
  \<^verbatim>\<open>drand48\<close> (numbers \<open>d / 2^48\<close> below 1).
\<close>

theorem new_tile_places_one_tile:
  assumes "wf_board (g_tiles g)" "0 \<in> set (concat (g_tiles g))" "random_tiles \<longrightarrow> d1 < 2 ^ 48"
  shows "\<exists>i j v. i < 4 \<and> j < 4 \<and> g_tiles g ! i ! j = 0 \<and> (v = 2 \<or> v = 4) \<and>
     new_tile random_tiles d1 d2 g = Some (g\<lparr>g_tiles := (g_tiles g)[i := (g_tiles g ! i)[j := v]]\<rparr>) \<and>
     (\<forall>a<4. \<forall>b<4. g_tiles g ! a ! b \<noteq> 0 \<longrightarrow>
        (g_tiles g)[i := (g_tiles g ! i)[j := v]] ! a ! b = g_tiles g ! a ! b) \<and>
     nonempty_count ((g_tiles g)[i := (g_tiles g ! i)[j := v]]) = nonempty_count (g_tiles g) + 1 \<and>
     (\<not> random_tiles \<longrightarrow>
        v = 2 \<and> 0 \<notin> set (concat (take i (g_tiles g))) \<and> 0 \<notin> set (take j (g_tiles g ! i)))"
proof -
  let ?t = "g_tiles g"
  from new_tile_places[OF assms, of d2] obtain k v where
    k: "k < zeros_in (concat ?t)" and v: "v = 2 \<or> v = 4"
    and det: "\<not> random_tiles \<longrightarrow> k = 0 \<and> v = 2"
    and nt: "new_tile random_tiles d1 d2 g = Some (g\<lparr>g_tiles := place_board ?t k v\<rparr>)"
    by blast
  from place_board_spec[OF k, of v] obtain i j where
    i: "i < length ?t" and j: "j < length (?t ! i)" and c: "?t ! i ! j = 0"
    and before: "zeros_in (concat (take i ?t)) + zeros_in (take j (?t ! i)) = k"
    and pb: "place_board ?t k v = ?t[i := (?t ! i)[j := v]]"
    by blast
  from assms(1) i j have i4: "i < 4" and j4: "j < 4" and len: "length ?t = 4"
    by (auto simp: wf_board_def)
  from v have v0: "v \<noteq> 0" by auto
  have keep: "\<forall>a<4. \<forall>b<4. ?t ! a ! b \<noteq> 0 \<longrightarrow> ?t[i := (?t ! i)[j := v]] ! a ! b = ?t ! a ! b"
    using c by (auto simp: nth_update_cell[OF i] len)
  have cnt: "nonempty_count (?t[i := (?t ! i)[j := v]]) = nonempty_count ?t + 1"
    by (rule nonempty_count_update[OF i j c v0])
  have first: "\<not> random_tiles \<longrightarrow>
      v = 2 \<and> 0 \<notin> set (concat (take i ?t)) \<and> 0 \<notin> set (take j (?t ! i))"
  proof (intro impI)
    assume "\<not> random_tiles"
    with det have "k = 0" "v = 2" by simp_all
    with before have "zeros_in (concat (take i ?t)) = 0" "zeros_in (take j (?t ! i)) = 0"
      by simp_all
    then have "0 \<notin> set (concat (take i ?t))" "0 \<notin> set (take j (?t ! i))"
      using zeros_in_none by blast+
    with \<open>v = 2\<close> show "v = 2 \<and> 0 \<notin> set (concat (take i ?t)) \<and> 0 \<notin> set (take j (?t ! i))"
      by blast
  qed
  from i4 j4 c v nt pb keep cnt first show ?thesis
    by (intro exI[of _ i] exI[of _ j] exI[of _ v]) simp
qed

theorem new_tile_places_one_tile_witness:
  "wf_board (g_tiles (game_of [[2, 4, 0, 2], [4, 0, 4, 4], [2, 2, 2, 2], [2, 4, 4, 2]] 0)) \<and>
   0 \<in> set (concat (g_tiles (game_of [[2, 4, 0, 2], [4, 0, 4, 4], [2, 2, 2, 2], [2, 4, 4, 2]] 0))) \<and>
   new_tile False 0 0 (game_of [[2, 4, 0, 2], [4, 0, 4, 4], [2, 2, 2, 2], [2, 4, 4, 2]] 0) =
     Some (game_of [[2, 4, 2, 2], [4, 0, 4, 4], [2, 2, 2, 2], [2, 4, 4, 2]] 0) \<and>
   (2 :: nat) ^ 47 < 2 ^ 48 \<and>
   new_tile True (2 ^ 47) (2 ^ 48 - 1) (game_of [[2, 4, 0, 2], [4, 0, 4, 4], [2, 2, 2, 2], [2, 4, 4, 2]] 0) =
     Some (game_of [[2, 4, 0, 2], [4, 4, 4, 4], [2, 2, 2, 2], [2, 4, 4, 2]] 0)"
proof -
  let ?g = "game_of [[2, 4, 0, 2], [4, 0, 4, 4], [2, 2, 2, 2], [2, 4, 4, 2]] 0"
  have wf: "wf_board (g_tiles ?g)" by (simp add: game_of_def wf_board_def)
  have z: "0 \<in> set (concat (g_tiles ?g))" by (simp add: game_of_def)
  have t: "g_tiles ?g = [[2, 4, 0, 2], [4, 0, 4, 4], [2, 2, 2, 2], [2, 4, 4, 2]]"
    by (simp add: game_of_def)
  from new_tile_places_one_tile[OF wf z, of False 0 0] obtain i j v where
    i: "i < 4" and j: "j < 4" and c: "g_tiles ?g ! i ! j = 0"
    and nt: "new_tile False 0 0 ?g = Some (?g\<lparr>g_tiles := (g_tiles ?g)[i := (g_tiles ?g ! i)[j := v]]\<rparr>)"
    and first: "v = 2" "0 \<notin> set (concat (take i (g_tiles ?g)))" "0 \<notin> set (take j (g_tiles ?g ! i))"
    by auto
  from i first(2) have i0: "i = 0"
    unfolding t by (cases i) (simp_all add: take_Cons')
  from j c have "j = 2"
    unfolding t i0 using less4_cases[OF j] by auto
  with nt i0 first(1) have det: "new_tile False 0 0 ?g =
      Some (game_of [[2, 4, 2, 2], [4, 0, 4, 4], [2, 2, 2, 2], [2, 4, 4, 2]] 0)"
    by (simp add: game_of_def)
  have rnd: "new_tile True (2 ^ 47) (2 ^ 48 - 1) ?g =
      Some (game_of [[2, 4, 0, 2], [4, 4, 4, 4], [2, 2, 2, 2], [2, 4, 4, 2]] 0)"
    by (simp add: new_tile_def count_rows_unroll count_scan_unroll place_rows.simps
        place_scan.simps rd_def wr_def game_of_def)
  from wf z det rnd show ?thesis by simp
qed

section \<open>Persistence\<close>

lemma bytes_int_bytes: "bytes_int (int_bytes w) = w"
proof (rule bit_word_eqI)
  fix n :: nat
  assume "n < LENGTH(32)"
  then have n: "n < 32" by simp
  consider "n < 8" | "8 \<le> n" "n < 16" | "16 \<le> n" "n < 24" | "24 \<le> n" "n < 32"
    using n by linarith
  then show "bit (bytes_int (int_bytes w)) n = bit w n"
    by cases (auto simp: bytes_int_def int_bytes_def bit_simps)
qed

lemma groups_concat:
  assumes "length xss = k" "\<forall>xs\<in>set xss. length xs = n"
  shows "groups k n (concat xss @ rest) = xss"
  using assms
  by (induction xss arbitrary: k) auto

lemma groups_concat': 
  assumes "length xss = k" "\<forall>xs\<in>set xss. length xs = n"
  shows "groups k n (concat xss) = xss"
  using groups_concat[OF assms, of "[]"] by simp

lemma length_int_bytes: "length (int_bytes w) = 4"
  by (simp add: int_bytes_def)

lemma ints_of_bytes:
  assumes "length ws = k"
  shows "map bytes_int (groups k 4 (concat (map int_bytes ws))) = ws"
proof -
  have "groups k 4 (concat (map int_bytes ws)) = map int_bytes ws"
    by (rule groups_concat') (auto simp: assms length_int_bytes)
  then show ?thesis
    by (simp add: comp_def bytes_int_bytes)
qed

lemma length_concat_board: "wf_board t \<Longrightarrow> length (concat t) = 16"
  by (auto simp: wf_board_explicit)

lemma ints_game_ints:
  assumes "wf_game g"
  shows "ints_game (game_ints g) = g"
proof -
  let ?u = "g_undo g"
  from assms have wb: "wf_board (g_tiles g)" and lu: "length (undo_tiles ?u) = 4"
    and wu: "\<forall>t\<in>set (undo_tiles ?u). wf_board t" and ls: "length (undo_score ?u) = 4"
    by (simp_all add: wf_game_def wf_stack_def)
  have a: "length (concat (g_tiles g)) = 16" using wb by (rule length_concat_board)
  have rows: "\<forall>r\<in>set (g_tiles g). length r = 4" "length (g_tiles g) = 4"
    using wb by (simp_all add: wf_board_def)
  have cu: "\<forall>xs\<in>set (map concat (undo_tiles ?u)). length xs = 16"
    using wu by (auto simp: length_concat_board)
  have b: "length (concat (map concat (undo_tiles ?u))) = 64"
  proof -
    from lu obtain t0 t1 t2 t3 where "undo_tiles ?u = [t0, t1, t2, t3]"
      by (auto simp: length4)
    with wu show ?thesis by (simp add: length_concat_board)
  qed
  have t: "groups 4 4 (concat (g_tiles g)) = g_tiles g"
    by (rule groups_concat') (simp_all add: rows)
  have u1: "groups 4 16 (concat (map concat (undo_tiles ?u))) = map concat (undo_tiles ?u)"
    by (rule groups_concat') (use cu lu in simp_all)
  have u2: "map (groups 4 4 \<circ> concat) (undo_tiles ?u) = undo_tiles ?u"
  proof -
    have "groups 4 4 (concat t) = t" if "t \<in> set (undo_tiles ?u)" for t
      using wu that by (intro groups_concat') (auto simp: wf_board_def)
    then show ?thesis by (simp add: map_idI)
  qed
  show ?thesis
    by (simp add: ints_game_def game_ints_def a b ls t u1 u2 nth_append)
qed

lemma length_game_ints: "wf_game g \<Longrightarrow> length (game_ints g) = 89"
proof -
  assume wf: "wf_game g"
  then obtain t0 t1 t2 t3 where "undo_tiles (g_undo g) = [t0, t1, t2, t3]"
    by (auto simp: wf_game_def wf_stack_def length4)
  with wf show ?thesis
    by (simp add: game_ints_def wf_game_def wf_stack_def length_concat_board)
qed

lemma length_game_bytes: "wf_game g \<Longrightarrow> length (game_bytes g) = sizeof_game"
proof -
  assume "wf_game g"
  then have "length (game_ints g) = 89" by (rule length_game_ints)
  moreover have "length (concat (map int_bytes ws)) = 4 * length ws" for ws
    by (induction ws) (simp_all add: length_int_bytes)
  ultimately show ?thesis by (simp add: game_bytes_def sizeof_game_def)
qed

lemma bytes_game_bytes: "wf_game g \<Longrightarrow> bytes_game (game_bytes g) = g"
  by (simp add: bytes_game_def game_bytes_def ints_of_bytes length_game_ints ints_game_ints)

lemma save_then_load:
  assumes "wf_game g" "fst (save_game io1 g f)" "fst (load_game io2 (snd (save_game io1 g f)) h)"
  shows "save_game io1 g f = (True, Some (game_bytes g))"
    and "load_game io2 (snd (save_game io1 g f)) h = (True, g)"
proof -
  note len = length_game_bytes[OF assms(1)]
  from assms(2) have o: "io_open io1"
    by (auto simp: save_game_def split: if_splits)
  with assms(2) have s0: "save_game io1 g f =
      (True, Some (take (min (io_bytes io1) sizeof_game) (game_bytes g)))"
    by (auto simp: save_game_def Let_def split: if_splits)
  have "sizeof_game \<le> io_bytes io1"
  proof (rule ccontr)
    assume "\<not> sizeof_game \<le> io_bytes io1"
    then have "length (take (min (io_bytes io1) sizeof_game) (game_bytes g)) < sizeof_game"
      using len by simp
    with assms(3) show False
      unfolding s0 by (auto simp: load_game_def Let_def split: if_splits)
  qed
  with s0 len show s: "save_game io1 g f = (True, Some (game_bytes g))"
    by simp
  from assms(3) show "load_game io2 (snd (save_game io1 g f)) h = (True, g)"
    unfolding s using len bytes_game_bytes[OF assms(1)]
    by (auto simp: load_game_def Let_def min_def split: if_splits)
qed

lemma save_load_succeed:
  assumes "wf_game g" "io_open io1" "sizeof_game \<le> io_bytes io1"
    "io_open io2" "sizeof_game \<le> io_bytes io2"
  shows "fst (save_game io1 g f)" "fst (load_game io2 (snd (save_game io1 g f)) h)"
  using assms length_game_bytes[OF assms(1)]
  by (auto simp: save_game_def load_game_def Let_def min_def)

subsection \<open>Saving, then loading\<close>

text \<open>
  Claim C7. For every game, when the file operations succeed (the file opens and the
  whole record is transferred), \<^verbatim>\<open>save_game\<close> and then \<^verbatim>\<open>load_game\<close> both return
  \<^verbatim>\<open>true\<close>, and the game loaded is the game saved, whatever the live game was when
  \<^verbatim>\<open>load_game\<close> was called.
\<close>

theorem save_load_roundtrip:
  assumes "wf_game g" "io_open io1" "sizeof_game \<le> io_bytes io1"
    "io_open io2" "sizeof_game \<le> io_bytes io2"
  shows "\<exists>f'. save_game io1 g f = (True, f') \<and> load_game io2 f' h = (True, g)"
  using save_then_load[OF assms(1) save_load_succeed[OF assms]] by simp

theorem save_load_roundtrip_witness:
  "wf_game (game_with (replicate 4 (row_of 4)) 8
      [replicate 4 (row_of 0), replicate 4 (row_of 2), replicate 4 (row_of 4), replicate 4 (row_of 0)]
      [0, 4, 8, 0] 2 2) \<and>
   io_open \<lparr>io_open = True, io_bytes = 356, io_buffered = True\<rparr> \<and>
   sizeof_game \<le> io_bytes \<lparr>io_open = True, io_bytes = 356, io_buffered = True\<rparr> \<and>
   io_open \<lparr>io_open = True, io_bytes = 356\<rparr> \<and>
   sizeof_game \<le> io_bytes \<lparr>io_open = True, io_bytes = 356\<rparr> \<and>
   (\<exists>f'. save_game \<lparr>io_open = True, io_bytes = 356, io_buffered = True\<rparr>
       (game_with (replicate 4 (row_of 4)) 8
          [replicate 4 (row_of 0), replicate 4 (row_of 2), replicate 4 (row_of 4), replicate 4 (row_of 0)]
          [0, 4, 8, 0] 2 2) None = (True, f') \<and>
      load_game \<lparr>io_open = True, io_bytes = 356\<rparr> f'
          (game_of (replicate 4 (row_of 2)) 4) =
        (True, game_with (replicate 4 (row_of 4)) 8
          [replicate 4 (row_of 0), replicate 4 (row_of 2), replicate 4 (row_of 4), replicate 4 (row_of 0)]
          [0, 4, 8, 0] 2 2))"
proof -
  let ?g = "game_with (replicate 4 (row_of 4)) 8
      [replicate 4 (row_of 0), replicate 4 (row_of 2), replicate 4 (row_of 4), replicate 4 (row_of 0)]
      [0, 4, 8, 0] 2 2"
  let ?io = "\<lparr>io_open = True, io_bytes = 356\<rparr>"
  let ?w = "\<lparr>io_open = True, io_bytes = 356, io_buffered = True\<rparr>"
  have wf: "wf_game ?g"
    by (simp add: game_with_def wf_game_def wf_stack_def wf_board_def)
  have o: "io_open ?io" and b: "sizeof_game \<le> io_bytes ?io"
    and ow: "io_open ?w" and bw: "sizeof_game \<le> io_bytes ?w"
    by (simp_all add: sizeof_game_def)
  from save_load_roundtrip[OF wf ow bw o b, of None "game_of (replicate 4 (row_of 2)) 4"]
    wf o b ow bw
  show ?thesis by blast
qed

subsection \<open>The history is part of the record\<close>

text \<open>
  Claim C5 says that the record on disk holds the board and the score only, so that a
  successful \<^verbatim>\<open>load_game\<close> leaves the live undo stack as it was. It fails: \<^verbatim>\<open>save_game\<close>
  writes the whole of \<^verbatim>\<open>g\<close>, the undo stack included, and \<^verbatim>\<open>load_game\<close> copies the whole
  record over \<^verbatim>\<open>g\<close>. Below, a game with two snapshots in its stack is saved, and loaded
  into a game whose stack is empty: the live stack is not what it was.
\<close>

theorem load_game_history_counterexample:
  "fst (load_game \<lparr>io_open = True, io_bytes = 356\<rparr>
      (snd (save_game \<lparr>io_open = True, io_bytes = 356, io_buffered = True\<rparr>
         (game_with (replicate 4 (row_of 4)) 8
            [replicate 4 (row_of 0), replicate 4 (row_of 2), replicate 4 (row_of 4), replicate 4 (row_of 0)]
            [0, 4, 8, 0] 2 2) None))
      (game_of (replicate 4 (row_of 2)) 4)) \<and>
   g_undo (snd (load_game \<lparr>io_open = True, io_bytes = 356\<rparr>
      (snd (save_game \<lparr>io_open = True, io_bytes = 356, io_buffered = True\<rparr>
         (game_with (replicate 4 (row_of 4)) 8
            [replicate 4 (row_of 0), replicate 4 (row_of 2), replicate 4 (row_of 4), replicate 4 (row_of 0)]
            [0, 4, 8, 0] 2 2) None))
      (game_of (replicate 4 (row_of 2)) 4))) \<noteq>
   g_undo (game_of (replicate 4 (row_of 2)) 4)"
proof -
  let ?g = "game_with (replicate 4 (row_of 4)) 8
      [replicate 4 (row_of 0), replicate 4 (row_of 2), replicate 4 (row_of 4), replicate 4 (row_of 0)]
      [0, 4, 8, 0] 2 2"
  let ?io = "\<lparr>io_open = True, io_bytes = 356\<rparr>"
  let ?w = "\<lparr>io_open = True, io_bytes = 356, io_buffered = True\<rparr>"
  have wf: "wf_game ?g"
    by (simp add: game_with_def wf_game_def wf_stack_def wf_board_def)
  have o: "io_open ?io" and b: "sizeof_game \<le> io_bytes ?io"
    and ow: "io_open ?w" and bw: "sizeof_game \<le> io_bytes ?w"
    by (simp_all add: sizeof_game_def)
  note ok = save_load_succeed(1)[OF wf ow bw o b, of None]
    save_load_succeed(2)[OF wf ow bw o b, of None "game_of (replicate 4 (row_of 2)) 4"]
  from save_then_load(2)[OF wf ok]
  have "load_game ?io (snd (save_game ?w ?g None)) (game_of (replicate 4 (row_of 2)) 4) = (True, ?g)" .
  moreover have "g_undo ?g \<noteq> g_undo (game_of (replicate 4 (row_of 2)) 4)"
    by (simp add: game_with_def game_of_def empty_stack_def)
  ultimately show ?thesis by simp
qed

text \<open>
  Claim C5, amended. The record on disk is the object representation of the whole
  \<^verbatim>\<open>struct game\<close> (\<^verbatim>\<open>sizeof g\<close> bytes: position, board, score and undo stack), and the
  undo stack can be read back from it; a successful \<^verbatim>\<open>load_game\<close> of a file written by
  a successful \<^verbatim>\<open>save_game\<close> replaces the live undo stack by the one of the game saved.
\<close>

theorem load_game_restores_saved_history:
  assumes "wf_game g" "fst (save_game io1 g f)"
    "fst (load_game io2 (snd (save_game io1 g f)) h)"
  shows "snd (save_game io1 g f) = Some (game_bytes g) \<and>
     length (game_bytes g) = sizeof_game \<and>
     g_undo (bytes_game (game_bytes g)) = g_undo g \<and>
     g_undo (snd (load_game io2 (snd (save_game io1 g f)) h)) = g_undo g"
  using save_then_load[OF assms] bytes_game_bytes[OF assms(1)] length_game_bytes[OF assms(1)]
  by simp

theorem load_game_restores_saved_history_witness:
  "wf_game (game_with (replicate 4 (row_of 4)) 8
      [replicate 4 (row_of 0), replicate 4 (row_of 2), replicate 4 (row_of 4), replicate 4 (row_of 0)]
      [0, 4, 8, 0] 2 2) \<and>
   fst (save_game \<lparr>io_open = True, io_bytes = 400, io_buffered = True\<rparr>
         (game_with (replicate 4 (row_of 4)) 8
            [replicate 4 (row_of 0), replicate 4 (row_of 2), replicate 4 (row_of 4), replicate 4 (row_of 0)]
            [0, 4, 8, 0] 2 2) (Some [1, 2, 3])) \<and>
   fst (load_game \<lparr>io_open = True, io_bytes = 400\<rparr>
      (snd (save_game \<lparr>io_open = True, io_bytes = 400, io_buffered = True\<rparr>
         (game_with (replicate 4 (row_of 4)) 8
            [replicate 4 (row_of 0), replicate 4 (row_of 2), replicate 4 (row_of 4), replicate 4 (row_of 0)]
            [0, 4, 8, 0] 2 2) (Some [1, 2, 3])))
      (game_of (replicate 4 (row_of 2)) 4)) \<and>
   g_undo (snd (load_game \<lparr>io_open = True, io_bytes = 400\<rparr>
      (snd (save_game \<lparr>io_open = True, io_bytes = 400, io_buffered = True\<rparr>
         (game_with (replicate 4 (row_of 4)) 8
            [replicate 4 (row_of 0), replicate 4 (row_of 2), replicate 4 (row_of 4), replicate 4 (row_of 0)]
            [0, 4, 8, 0] 2 2) (Some [1, 2, 3])))
      (game_of (replicate 4 (row_of 2)) 4))) =
   \<lparr>undo_tiles = [replicate 4 (row_of 0), replicate 4 (row_of 2), replicate 4 (row_of 4), replicate 4 (row_of 0)],
     undo_score = [0, 4, 8, 0], undo_top = 2, undo_size = 2\<rparr>"
proof -
  let ?g = "game_with (replicate 4 (row_of 4)) 8
      [replicate 4 (row_of 0), replicate 4 (row_of 2), replicate 4 (row_of 4), replicate 4 (row_of 0)]
      [0, 4, 8, 0] 2 2"
  let ?io = "\<lparr>io_open = True, io_bytes = 400\<rparr>"
  let ?w = "\<lparr>io_open = True, io_bytes = 400, io_buffered = True\<rparr>"
  have wf: "wf_game ?g"
    by (simp add: game_with_def wf_game_def wf_stack_def wf_board_def)
  have o: "io_open ?io" and b: "sizeof_game \<le> io_bytes ?io"
    and ow: "io_open ?w" and bw: "sizeof_game \<le> io_bytes ?w"
    by (simp_all add: sizeof_game_def)
  note ok = save_load_succeed(1)[OF wf ow bw o b, of "Some [1, 2, 3]"]
    save_load_succeed(2)[OF wf ow bw o b, of "Some [1, 2, 3]" "game_of (replicate 4 (row_of 2)) 4"]
  from load_game_restores_saved_history[OF wf ok]
  have "g_undo (snd (load_game ?io (snd (save_game ?w ?g (Some [1, 2, 3])))
      (game_of (replicate 4 (row_of 2)) 4))) = g_undo ?g"
    by blast
  then show ?thesis using wf ok by (simp add: game_with_def)
qed

subsection \<open>Loading fails\<close>

text \<open>
  Claim C8. \<^verbatim>\<open>load_game\<close> fails exactly when the save file is missing or cannot be
  opened, or when fewer bytes than a full record can be read from it. Whenever it fails
  it returns \<^verbatim>\<open>false\<close> and the whole game (board, score and undo stack) is as before.
\<close>

theorem load_game_failure_keeps_game:
  "((\<not> fst (load_game io f g)) =
      (f = None \<or> \<not> io_open io \<or>
       (\<exists>bs. f = Some bs \<and> min (io_bytes io) (length bs) < sizeof_game))) \<and>
   (\<not> fst (load_game io f g) \<longrightarrow> load_game io f g = (False, g))"
  by (auto simp: load_game_def Let_def sizeof_game_def split: option.splits if_splits)

theorem load_game_failure_keeps_game_witness:
  "\<not> fst (load_game \<lparr>io_open = True, io_bytes = 400\<rparr> (Some [1, 2, 3])
          (game_of [[2, 0, 0, 0], [0, 0, 0, 0], [0, 0, 0, 0], [0, 0, 0, 0]] 0)) \<and>
   load_game \<lparr>io_open = True, io_bytes = 400\<rparr> (Some [1, 2, 3])
       (game_of [[2, 0, 0, 0], [0, 0, 0, 0], [0, 0, 0, 0], [0, 0, 0, 0]] 0) =
     (False, game_of [[2, 0, 0, 0], [0, 0, 0, 0], [0, 0, 0, 0], [0, 0, 0, 0]] 0)"
proof -
  have h: "\<not> fst (load_game \<lparr>io_open = True, io_bytes = 400\<rparr> (Some [1, 2, 3])
      (game_of [[2, 0, 0, 0], [0, 0, 0, 0], [0, 0, 0, 0], [0, 0, 0, 0]] 0))"
    by (simp add: load_game_def sizeof_game_def)
  with load_game_failure_keeps_game
    [of "\<lparr>io_open = True, io_bytes = 400\<rparr>" "Some [1, 2, 3]"
        "game_of [[2, 0, 0, 0], [0, 0, 0, 0], [0, 0, 0, 0], [0, 0, 0, 0]] 0"]
  show ?thesis by blast
qed

end
